theory Spec2Isabelle
  imports Main "HOL-Library.Sublist"
begin

section \<open>Python string primitives used by the scripts\<close>

text \<open>
  Python strings are modelled as \<open>string\<close>, a list of characters. A \<open>char\<close> stands for
  one code point in the range 0..255; texts with a code point beyond that range are
  outside the model.
\<close>

abbreviation (input) dq :: char where "dq \<equiv> CHR 0x22"
abbreviation (input) sq :: char where "sq \<equiv> CHR 0x27"
abbreviation (input) bsl :: char where "bsl \<equiv> CHR 0x5C"
abbreviation (input) LF :: char where "LF \<equiv> CHR 0x0A"
abbreviation (input) CR :: char where "CR \<equiv> CHR 0x0D"
abbreviation (input) TAB :: char where "TAB \<equiv> CHR 0x09"

datatype py_exc = IndexError | ValueError | KeyError | EvalError | Unmodelled

text \<open>\<open>xs[i]\<close> for a non-negative literal index: IndexError out of range.\<close>

definition py_index :: "'a list \<Rightarrow> nat \<Rightarrow> py_exc + 'a" where
  "py_index xs i = (if i < length xs then Inr (xs ! i) else Inl IndexError)"

text \<open>Sequencing of steps that may raise: the first exception ends the computation.\<close>

definition bind_exc :: "'e + 'a \<Rightarrow> ('a \<Rightarrow> 'e + 'b) \<Rightarrow> 'e + 'b" where
  "bind_exc r f = (case r of Inl e \<Rightarrow> Inl e | Inr x \<Rightarrow> f x)"

text \<open>\<open>xs.index(x)\<close>: position of the first element equal to \<open>x\<close>, None for ValueError.\<close>

fun py_list_index :: "'a list \<Rightarrow> 'a \<Rightarrow> nat option" where
  "py_list_index [] x = None"
| "py_list_index (y # ys) x =
     (if y = x then Some 0 else map_option Suc (py_list_index ys x))"

text \<open>\<open>str.isspace\<close> on one code point below 256: the characters \<open>str.split()\<close> splits at.\<close>

definition py_isspace :: "char \<Rightarrow> bool" where
  "py_isspace c \<longleftrightarrow>
     c \<in> set [CHR 0x09, CHR 0x0A, CHR 0x0B, CHR 0x0C, CHR 0x0D, CHR 0x1C, CHR 0x1D,
       CHR 0x1E, CHR 0x1F, CHR 0x20, CHR 0x85, CHR 0xA0]"

text \<open>
  \<open>s.split(sep)\<close> for a non-empty separator: the pieces between the non-overlapping
  occurrences of \<open>sep\<close>, found from the left. Every call site of the scripts passes a
  non-empty literal separator.
\<close>

fun py_split :: "string \<Rightarrow> string \<Rightarrow> string list" where
  "py_split sep [] = [[]]"
| "py_split sep (c # cs) =
     (if prefix sep (c # cs) then [] # py_split sep (drop (length sep - 1) cs)
      else (case py_split sep cs of [] \<Rightarrow> [[c]] | p # ps \<Rightarrow> (c # p) # ps))"

text \<open>\<open>s.split()\<close>: the maximal runs of non-whitespace characters.\<close>

fun split_ws :: "string \<Rightarrow> string list" where
  "split_ws [] = []"
| "split_ws (c # cs) =
     (if py_isspace c then split_ws cs
      else (case cs of
              [] \<Rightarrow> [[c]]
            | d # _ \<Rightarrow>
                if py_isspace d then [c] # split_ws cs
                else (case split_ws cs of [] \<Rightarrow> [[c]] | w # ws \<Rightarrow> (c # w) # ws)))"

text \<open>\<open>sep.join(xs)\<close>.\<close>

fun py_join :: "string \<Rightarrow> string list \<Rightarrow> string" where
  "py_join sep [] = []"
| "py_join sep [x] = x"
| "py_join sep (x # y # ys) = x @ sep @ py_join sep (y # ys)"

text \<open>\<open>sub in s\<close> for strings.\<close>

fun py_in :: "string \<Rightarrow> string \<Rightarrow> bool" where
  "py_in sub [] = (sub = [])"
| "py_in sub (c # cs) = (prefix sub (c # cs) \<or> py_in sub cs)"


section \<open>parse.py: comment stripping\<close>

text \<open>
  \<open>__comments_pattern\<close> is
  \<^verbatim>\<open>(\".*?(?<!\\)\"|\'.*?(?<!\\)\')|(/\*.*?\*/|//[^\r\n]*$)\<close> with MULTILINE and DOTALL.

  \<open>find_close q prev s\<close> is the lazy \<^verbatim>\<open>.*?(?<!\\)q\<close> on \<open>s\<close>, where \<open>prev\<close> is the
  character just before \<open>s\<close>: the shortest body followed by a \<open>q\<close> whose predecessor is
  not a backslash, and the text after that \<open>q\<close>.
\<close>

fun find_close :: "char \<Rightarrow> char \<Rightarrow> string \<Rightarrow> (string \<times> string) option" where
  "find_close q prev [] = None"
| "find_close q prev (c # cs) =
     (if c = q \<and> prev \<noteq> bsl then Some ([], cs)
      else (case find_close q c cs of
              None \<Rightarrow> None
            | Some (body, rest) \<Rightarrow> Some (c # body, rest)))"

text \<open>The lazy \<^verbatim>\<open>.*?\*/\<close>: the text after the first \<^verbatim>\<open>*/\<close>.\<close>

fun find_block_end :: "string \<Rightarrow> string option" where
  "find_block_end (c # d # cs) =
     (if c = CHR ''*'' \<and> d = CHR ''/'' then Some cs else find_block_end (d # cs))"
| "find_block_end _ = None"

text \<open>
  \<^verbatim>\<open>[^\r\n]*$\<close>: the greedy run stops at the first CR or LF or at the end of the text, and
  \<open>$\<close> (MULTILINE) holds only at the end of the text or just before an LF. Giving
  characters back cannot help, since none of them is an LF; so before a CR there is no
  match. The result is the text after the comment.
\<close>

fun line_comment_end :: "string \<Rightarrow> string option" where
  "line_comment_end [] = Some []"
| "line_comment_end (c # cs) =
     (if c = LF then Some (c # cs) else if c = CR then None else line_comment_end cs)"

text \<open>
  A match of the pattern at the start of \<open>s\<close>: group 1 (the quoted literal) when it
  took part, None for it when group 2 (a comment) matched, and the text after the match.
\<close>

definition comments_pattern_match :: "string \<Rightarrow> (string option \<times> string) option" where
  "comments_pattern_match s =
     (case s of
        [] \<Rightarrow> None
      | c # cs \<Rightarrow>
          if c = dq \<or> c = sq then
            (case find_close c c cs of
               None \<Rightarrow> None
             | Some (body, rest) \<Rightarrow> Some (Some (c # body @ [c]), rest))
          else if c = CHR ''/'' then
            (case cs of
               [] \<Rightarrow> None
             | d # ds \<Rightarrow>
                 if d = CHR ''*'' then map_option (Pair None) (find_block_end ds)
                 else if d = CHR ''/'' then map_option (Pair None) (line_comment_end ds)
                 else None)
          else None)"

lemma find_close_length:
  "find_close q prev s = Some (body, rest) \<Longrightarrow> length rest < length s"
proof (induction s arbitrary: prev body)
  case Nil
  then show ?case by simp
next
  case (Cons c cs)
  show ?case
  proof (cases "c = q \<and> prev \<noteq> bsl")
    case True
    with Cons.prems show ?thesis by simp
  next
    case False
    with Cons.prems obtain b where "find_close q c cs = Some (b, rest)"
      by (auto split: option.splits)
    from Cons.IH [OF this] show ?thesis by simp
  qed
qed

lemma find_block_end_length:
  "find_block_end s = Some rest \<Longrightarrow> length rest < length s"
proof (induction s rule: find_block_end.induct)
  case (1 c d cs)
  show ?case
  proof (cases "c = CHR ''*'' \<and> d = CHR ''/''")
    case True
    with "1.prems" show ?thesis by simp
  next
    case False
    with "1.prems" have "find_block_end (d # cs) = Some rest" by simp
    with False "1.IH" show ?thesis by simp
  qed
qed simp_all

lemma line_comment_end_length:
  "line_comment_end s = Some rest \<Longrightarrow> length rest \<le> length s"
proof (induction s)
  case Nil
  then show ?case by simp
next
  case (Cons c cs)
  show ?case
  proof (cases "c = LF")
    case True
    with Cons.prems show ?thesis by simp
  next
    case False
    with Cons.prems have "c \<noteq> CR" and "line_comment_end cs = Some rest"
      by (simp_all split: if_splits)
    with Cons.IH show ?thesis by simp
  qed
qed

lemma comments_pattern_match_length:
  assumes "comments_pattern_match s = Some (g, rest)"
  shows "length rest < length s"
proof (cases s)
  case Nil
  with assms show ?thesis by (simp add: comments_pattern_match_def)
next
  case (Cons c cs)
  show ?thesis
  proof (cases "c = dq \<or> c = sq")
    case True
    with assms Cons obtain body where "find_close c c cs = Some (body, rest)"
      by (auto simp: comments_pattern_match_def split: option.splits)
    from find_close_length [OF this] Cons show ?thesis by simp
  next
    case notq: False
    show ?thesis
    proof (cases cs)
      case Nil
      with assms Cons notq show ?thesis
        by (simp add: comments_pattern_match_def split: if_splits)
    next
      case (Cons d ds)
      with assms \<open>s = c # cs\<close> notq
      have "find_block_end ds = Some rest \<or> line_comment_end ds = Some rest"
        by (auto simp: comments_pattern_match_def split: if_splits)
      then have "length rest \<le> length ds"
        using find_block_end_length [of ds rest] line_comment_end_length [of ds rest]
        by auto
      with Cons \<open>s = c # cs\<close> show ?thesis by simp
    qed
  qed
qed

text \<open>
  \<open>__comments_pattern.sub(lambda match: "" if match.group(2) is not None else
  match.group(1), full_text)\<close>: where the pattern matches, a comment is dropped and a
  quoted literal is copied; elsewhere the character is copied.
\<close>

function strip_comments :: "string \<Rightarrow> string" where
  "strip_comments [] = []"
| "strip_comments (c # cs) =
     (case comments_pattern_match (c # cs) of
        None \<Rightarrow> c # strip_comments cs
      | Some (g1, rest) \<Rightarrow>
          (case g1 of None \<Rightarrow> [] | Some lit \<Rightarrow> lit) @ strip_comments rest)"
  by pat_completeness auto
termination
proof (relation "measure length")
  show "wf (measure length)" by simp
next
  fix c :: char and cs :: string
  show "(cs, c # cs) \<in> measure length" by simp
next
  fix c :: char and cs :: string and x2 :: "string option \<times> string" and x y
  assume "comments_pattern_match (c # cs) = Some x2" and "(x, y) = x2"
  then have "comments_pattern_match (c # cs) = Some (x, y)" by simp
  from comments_pattern_match_length [OF this]
  show "(y, c # cs) \<in> measure length" by simp
qed

text \<open>
  The substitution looks for the next match from left to right: at the start of the
  text, one character after a place without a match, and behind a match.
  \<open>written_before t s\<close> is the text written when the search on \<open>s\<close> comes to stand at
  the suffix \<open>t\<close>; None when no search starts there, because \<open>t\<close> begins inside a
  comment or a literal, or is no suffix of \<open>s\<close>.
\<close>

function written_before :: "string \<Rightarrow> string \<Rightarrow> string option" where
  "written_before t s =
     (if s = t then Some []
      else (case s of
              [] \<Rightarrow> None
            | c # cs \<Rightarrow>
                (case comments_pattern_match (c # cs) of
                   None \<Rightarrow> map_option ((#) c) (written_before t cs)
                 | Some (g1, rest) \<Rightarrow>
                     map_option ((@) (case g1 of None \<Rightarrow> [] | Some lit \<Rightarrow> lit))
                       (written_before t rest))))"
  by pat_completeness auto
termination
proof (relation "measure (\<lambda>(t, s). length s)")
  show "wf (measure (\<lambda>(t, s). length s))" by simp
next
  fix t s :: string and c :: char and cs :: string
  assume "s = c # cs"
  then show "((t, cs), t, s) \<in> measure (\<lambda>(t, s). length s)" by simp
next
  fix t s :: string and c :: char and cs :: string and x2 :: "string option \<times> string" and x y
  assume "s = c # cs" and "comments_pattern_match (c # cs) = Some x2" and "(x, y) = x2"
  then have "comments_pattern_match (c # cs) = Some (x, y)" by simp
  from comments_pattern_match_length [OF this] \<open>s = c # cs\<close>
  show "((t, y), t, s) \<in> measure (\<lambda>(t, s). length s)" by simp
qed


section \<open>parse.py: the statements of a script\<close>

text \<open>
  The scripts hold a statement in local variables: \<open>var_type\<close>, \<open>var_name\<close>,
  \<open>class_name\<close>, \<open>args\<close> for a declaration and \<open>var_name\<close>, \<open>method_name\<close>,
  \<open>args\<close> for a call.
\<close>

datatype statement =
    Construct string string string "string list"
  | Invoke string string "string list"

fun stmt_args :: "statement \<Rightarrow> string list" where
  "stmt_args (Construct var_type var_name class_name args) = args"
| "stmt_args (Invoke var_name method_name args) = args"

datatype error =
    SyntaxError nat
  | UnsupportedTargetError
  | FileNotFoundError
  | UsageError
  | Uncaught py_exc

text \<open>
  \<open>re.sub(__args_pattern, "", s)\<close> with \<^verbatim>\<open>^\(\)$\<close> (DOTALL only): \<open>^\<close> holds at the
  start of the text and \<open>$\<close> at its end or before a final LF.
\<close>

definition args_pattern_sub :: "string \<Rightarrow> string" where
  "args_pattern_sub s =
     (if s = ''()'' then [] else if s = ''()'' @ [LF] then [LF] else s)"

text \<open>\<open>s[1:-1]\<close>.\<close>

definition slice_1_m1 :: "string \<Rightarrow> string" where
  "slice_1_m1 s = butlast (drop 1 s)"

text \<open>
  Lines 73-74 and 79-80, on the text \<open>rhs\<close> right of the marker:
  \<open>args_string = " ".join(rhs.split()[1:])\<close>,
  \<open>args = [] if not args_string else re.sub(__args_pattern, "", args_string[1:-1]).split(" ")\<close>.
\<close>

definition parse_args :: "string \<Rightarrow> string list" where
  "parse_args rhs =
     (let args_string = py_join '' '' (drop 1 (split_ws rhs))
      in if args_string = [] then []
         else py_split '' '' (args_pattern_sub (slice_1_m1 args_string)))"

definition parse_construct :: "string \<Rightarrow> py_exc + statement" where
  "parse_construct line =
     bind_exc (py_index (py_split '' - '' line) 0) (\<lambda>var_type.
     bind_exc (py_index (py_split '' - '' line) 1) (\<lambda>after_sep.
     bind_exc (py_index (py_split '' ::= '' after_sep) 0) (\<lambda>var_name.
     bind_exc (py_index (py_split '' ::= '' line) 1) (\<lambda>rhs.
     bind_exc (py_index (py_split '' ('' rhs) 0) (\<lambda>class_name.
       Inr (Construct var_type var_name class_name (parse_args rhs)))))))"

definition parse_invoke :: "string \<Rightarrow> py_exc + statement" where
  "parse_invoke line =
     bind_exc (py_index (py_split '' -> '' line) 0) (\<lambda>var_name.
     bind_exc (py_index (py_split '' -> '' line) 1) (\<lambda>rhs.
     bind_exc (py_index (py_split '' ('' rhs) 0) (\<lambda>method_name.
       Inr (Invoke var_name method_name (parse_args rhs)))))"

text \<open>The body of the \<open>try\<close> of lines 68-81: None for a line with neither marker.\<close>

definition parse_line :: "string \<Rightarrow> py_exc + statement option" where
  "parse_line line =
     (if py_in '' ::= '' line then map_sum id Some (parse_construct line)
      else if py_in '' -> '' line then map_sum id Some (parse_invoke line)
      else Inr None)"

text \<open>
  The loop of lines 67-85. An IndexError is caught and reported with
  \<open>full_text.split("\n").index(line) + 1\<close>; when no line of the original text equals
  \<open>line\<close>, \<open>index\<close> raises ValueError inside the handler, which nothing catches.
\<close>

fun parse_lines :: "string \<Rightarrow> string list \<Rightarrow> error + statement list" where
  "parse_lines full_text [] = Inr []"
| "parse_lines full_text (line # ls) =
     (case parse_line line of
        Inl e \<Rightarrow>
          if e = IndexError then
            (case py_list_index (py_split [LF] full_text) line of
               None \<Rightarrow> Inl (Uncaught ValueError)
             | Some i \<Rightarrow> Inl (SyntaxError (i + 1)))
          else Inl (Uncaught e)
      | Inr None \<Rightarrow> parse_lines full_text ls
      | Inr (Some st) \<Rightarrow>
          (case parse_lines full_text ls of
             Inl e \<Rightarrow> Inl e
           | Inr sts \<Rightarrow> Inr (st # sts)))"

text \<open>Lines 64-66: the non-empty lines of the text without comments.\<close>

definition code_lines :: "string \<Rightarrow> string list" where
  "code_lines full_text = filter (\<lambda>x. x \<noteq> []) (py_split [LF] (strip_comments full_text))"

definition normalize :: "string \<Rightarrow> error + statement list" where
  "normalize full_text = parse_lines full_text (code_lines full_text)"


section \<open>The intermediate text\<close>

text \<open>
  \<open>str.isprintable\<close> on one code point below 256; \<open>repr\<close> writes every other
  character as an escape.
\<close>

definition py_isprintable :: "char \<Rightarrow> bool" where
  "py_isprintable c =
     (let n = (of_char c :: nat) in
      if n < 32 then False
      else if n < 127 then True
      else if n < 161 then False
      else n \<noteq> 173)"

definition hex_digit :: "nat \<Rightarrow> char" where
  "hex_digit n = ''0123456789abcdef'' ! n"

text \<open>One character of \<open>repr(s)\<close>, inside the quotes \<open>q\<close>.\<close>

definition repr_char :: "char \<Rightarrow> char \<Rightarrow> string" where
  "repr_char q c =
     (if c = q \<or> c = bsl then [bsl, c]
      else if c = TAB then [bsl, CHR ''t'']
      else if c = LF then [bsl, CHR ''n'']
      else if c = CR then [bsl, CHR ''r'']
      else if \<not> py_isprintable c then
        [bsl, CHR ''x'', hex_digit (of_char c div 16), hex_digit (of_char c mod 16)]
      else [c])"

text \<open>
  \<open>repr(s)\<close> of a string: double quotes when \<open>s\<close> has a single quote and no double
  quote, single quotes otherwise.
\<close>

definition py_repr_str :: "string \<Rightarrow> string" where
  "py_repr_str s =
     (let q = (if sq \<in> set s \<and> dq \<notin> set s then dq else sq)
      in q # concat (map (repr_char q) s) @ [q])"

text \<open>\<open>str(args)\<close> of a list of strings, as the f-strings of lines 75 and 81 format it.\<close>

definition py_repr_list :: "string list \<Rightarrow> string" where
  "py_repr_list xs = ''['' @ py_join '', '' (map py_repr_str xs) @ '']''"

text \<open>The line appended to \<open>output\<close> for a statement (lines 75 and 81).\<close>

fun serialize :: "statement \<Rightarrow> string" where
  "serialize (Construct var_type var_name class_name args) =
     ''var '' @ var_type @ '' '' @ var_name @ '' '' @ class_name @ '' ''
       @ py_repr_list args @ [LF]"
| "serialize (Invoke var_name method_name args) =
     ''method '' @ var_name @ '' '' @ method_name @ '' '' @ py_repr_list args @ [LF]"

text \<open>\<open>output_file.writelines(output)\<close>: the text of the intermediate file.\<close>

definition intermediate_text :: "statement list \<Rightarrow> string" where
  "intermediate_text stmts = concat (map serialize stmts)"

text \<open>
  Reading a file opened with \<open>mode="r"\<close>: universal newlines turn CR LF and a lone CR
  into LF.
\<close>

fun universal_newlines :: "string \<Rightarrow> string" where
  "universal_newlines [] = []"
| "universal_newlines [c] = (if c = CR then [LF] else [c])"
| "universal_newlines (c # d # cs) =
     (if c = CR then
        (if d = LF then LF # universal_newlines cs else LF # universal_newlines (d # cs))
      else c # universal_newlines (d # cs))"

text \<open>\<open>readlines()\<close> on the translated text: the lines, each with its LF.\<close>

fun py_readlines :: "string \<Rightarrow> string list" where
  "py_readlines [] = []"
| "py_readlines (c # cs) =
     (if c = LF then [c] # py_readlines cs
      else (case py_readlines cs of [] \<Rightarrow> [[c]] | l # ls \<Rightarrow> (c # l) # ls))"


section \<open>convert.py: evaluation of the argument text\<close>

text \<open>
  Lines 51 and 62 pass the argument text to \<open>eval\<close>. For a list display of string
  literals, written as \<open>repr\<close> writes it, the value is the list of the strings the
  literals denote; \<open>literal_list\<close> reads exactly these texts: \<^verbatim>\<open>[]\<close>, or \<^verbatim>\<open>[\<close>,
  literals separated by a comma and a space, \<^verbatim>\<open>]\<close>; a literal in single or double
  quotes, of printable characters and the escapes for a backslash, a quote, \<^verbatim>\<open>\n\<close>,
  \<^verbatim>\<open>\r\<close>, \<^verbatim>\<open>\t\<close> and \<^verbatim>\<open>\xhh\<close> with lower-case digits.
\<close>

definition hex_val :: "char \<Rightarrow> nat option" where
  "hex_val c =
     (let n = (of_char c :: nat) in
      if 48 \<le> n \<and> n \<le> 57 then Some (n - 48)
      else if 97 \<le> n \<and> n \<le> 102 then Some (n - 87)
      else None)"

definition cons_fst :: "'a \<Rightarrow> ('a list \<times> 'b) option \<Rightarrow> ('a list \<times> 'b) option" where
  "cons_fst c r = (case r of None \<Rightarrow> None | Some (body, rest) \<Rightarrow> Some (c # body, rest))"

text \<open>
  The body of a literal after its opening quote \<open>q\<close>: the string it denotes and the
  text after the closing quote.
\<close>

fun literal_body :: "char \<Rightarrow> string \<Rightarrow> (string \<times> string) option" where
  "literal_body q [] = None"
| "literal_body q (c # cs) =
     (if c = q then Some ([], cs)
      else if c = bsl then
        (case cs of
           [] \<Rightarrow> None
         | e # es \<Rightarrow>
             if e = bsl \<or> e = sq \<or> e = dq then cons_fst e (literal_body q es)
             else if e = CHR ''n'' then cons_fst LF (literal_body q es)
             else if e = CHR ''r'' then cons_fst CR (literal_body q es)
             else if e = CHR ''t'' then cons_fst TAB (literal_body q es)
             else if e = CHR ''x'' then
               (case es of
                  h1 # h2 # es' \<Rightarrow>
                    (case (hex_val h1, hex_val h2) of
                       (Some a, Some b) \<Rightarrow>
                         cons_fst (char_of (16 * a + b)) (literal_body q es')
                     | _ \<Rightarrow> None)
                | _ \<Rightarrow> None)
             else None)
      else if py_isprintable c then cons_fst c (literal_body q cs)
      else None)"

definition string_literal :: "string \<Rightarrow> (string \<times> string) option" where
  "string_literal s =
     (case s of
        [] \<Rightarrow> None
      | c # cs \<Rightarrow> if c = sq \<or> c = dq then literal_body c cs else None)"

lemma cons_fst_Some:
  "cons_fst c r = Some (body, rest) \<Longrightarrow> \<exists>b. r = Some (b, rest) \<and> body = c # b"
  by (cases r) (auto simp: cons_fst_def)

lemma literal_body_length:
  "literal_body q s = Some (body, rest) \<Longrightarrow> length rest < length s"
proof (induction q s arbitrary: body rule: literal_body.induct)
  case (1 q)
  then show ?case by simp
next
  case (2 q c cs)
  show ?case
  proof (cases "c = q")
    case True
    with "2.prems" show ?thesis by simp
  next
    case cq: False
    show ?thesis
    proof (cases "c = bsl")
      case False
      with cq "2.prems" have p: "py_isprintable c"
        and r: "cons_fst c (literal_body q cs) = Some (body, rest)"
        by (simp_all split: if_splits)
      from cons_fst_Some [OF r] obtain b where "literal_body q cs = Some (b, rest)" by blast
      from "2.IH"(6) [OF cq False p this] show ?thesis by simp
    next
      case True
      with cq "2.prems" obtain e es where cs: "cs = e # es"
        by (cases cs) simp_all
      show ?thesis
      proof (cases "e = CHR ''x''")
        case False
        with cq True cs "2.prems" obtain d where
          r: "cons_fst d (literal_body q es) = Some (body, rest)"
          by (auto split: if_splits)
        from cons_fst_Some [OF r] obtain b where b: "literal_body q es = Some (b, rest)"
          by blast
        from cq True cs False "2.prems" consider
          "e = bsl \<or> e = sq \<or> e = dq" | "\<not> (e = bsl \<or> e = sq \<or> e = dq)" "e = CHR ''n''"
          | "\<not> (e = bsl \<or> e = sq \<or> e = dq)" "e \<noteq> CHR ''n''" "e = CHR ''r''"
          | "\<not> (e = bsl \<or> e = sq \<or> e = dq)" "e \<noteq> CHR ''n''" "e \<noteq> CHR ''r''" "e = CHR ''t''"
          by (auto split: if_splits)
        then have "length rest < length es"
        proof cases
          case 1
          from "2.IH"(1) [OF cq True cs 1 b] show ?thesis .
        next
          case 2
          from "2.IH"(2) [OF cq True cs 2 b] show ?thesis .
        next
          case 3
          from "2.IH"(3) [OF cq True cs 3 b] show ?thesis .
        next
          case 4
          from "2.IH"(4) [OF cq True cs 4 b] show ?thesis .
        qed
        with cs show ?thesis by simp
      next
        case ex: True
        with cq True cs "2.prems" obtain h1 h2 es' a b where
          es: "es = h1 # h2 # es'" and h: "hex_val h1 = Some a" "hex_val h2 = Some b"
          and r: "cons_fst (char_of (16 * a + b)) (literal_body q es') = Some (body, rest)"
          by (auto split: if_splits list.splits option.splits)
        from cons_fst_Some [OF r] obtain b' where b': "literal_body q es' = Some (b', rest)"
          by blast
        have ne: "\<not> (e = bsl \<or> e = sq \<or> e = dq)" "e \<noteq> CHR ''n''" "e \<noteq> CHR ''r''"
          "e \<noteq> CHR ''t''"
          using ex by simp_all
        have "(hex_val h1, hex_val h2) = (Some a, Some b)" using h by simp
        from "2.IH"(5) [OF cq True cs ne ex es refl this [symmetric] refl refl b']
        have "length rest < length es'" .
        with cs es show ?thesis by simp
      qed
    qed
  qed
qed


lemma string_literal_length:
  "string_literal s = Some (x, rest) \<Longrightarrow> length rest < length s"
proof (cases s)
  case Nil
  then show "string_literal s = Some (x, rest) \<Longrightarrow> ?thesis"
    by (simp add: string_literal_def)
next
  case (Cons c cs)
  assume "string_literal s = Some (x, rest)"
  with Cons have "literal_body c cs = Some (x, rest)"
    by (simp add: string_literal_def split: if_splits)
  from literal_body_length [OF this] Cons show ?thesis by simp
qed

text \<open>After a literal of the list: the closing bracket, or a comma, a space and a literal.\<close>

function literal_items :: "string \<Rightarrow> string list option" where
  "literal_items s =
     (if s = '']'' then Some []
      else (case s of
              c # d # rest \<Rightarrow>
                if c = CHR '','' \<and> d = CHR '' '' then
                  (case string_literal rest of
                     None \<Rightarrow> None
                   | Some (x, rest') \<Rightarrow> map_option ((#) x) (literal_items rest'))
                else None
            | _ \<Rightarrow> None))"
  by pat_completeness auto
termination
proof (relation "measure length")
  show "wf (measure length)" by simp
next
  fix s :: string and c d :: char and cs rest x2 x y
  assume "s = c # cs" and "cs = d # rest"
    and "string_literal rest = Some x2" and "(x, y) = x2"
  then have "string_literal rest = Some (x, y)" by simp
  from string_literal_length [OF this] \<open>s = c # cs\<close> \<open>cs = d # rest\<close>
  show "(y, s) \<in> measure length" by simp
qed

definition literal_list :: "string \<Rightarrow> string list option" where
  "literal_list s =
     (case s of
        [] \<Rightarrow> None
      | c # cs \<Rightarrow>
          if c = CHR ''['' then
            (if cs = '']'' then Some []
             else (case string_literal cs of
                     None \<Rightarrow> None
                   | Some (x, rest) \<Rightarrow> map_option ((#) x) (literal_items rest)))
          else None)"

text \<open>
  A text that ends before its list display does is a syntax error in every run: the
  text ends inside a string literal (\<open>body_cut\<close>, \<open>lit_cut\<close>), or the opening bracket is
  never closed. \<open>display_cut\<close> recognises the texts that end in this way after a
  beginning that \<open>literal_list\<close> reads, and the empty text, which is a syntax error too.
\<close>

fun body_cut :: "char \<Rightarrow> string \<Rightarrow> bool" where
  "body_cut q [] = True"
| "body_cut q (c # cs) =
     (if c = q then False
      else if c = bsl then
        (case cs of
           [] \<Rightarrow> True
         | e # es \<Rightarrow>
             if e = bsl \<or> e = sq \<or> e = dq \<or> e = CHR ''n'' \<or> e = CHR ''r'' \<or> e = CHR ''t''
             then body_cut q es
             else if e = CHR ''x'' then
               (case es of
                  [] \<Rightarrow> True
                | [h1] \<Rightarrow> hex_val h1 \<noteq> None
                | h1 # h2 # es' \<Rightarrow> hex_val h1 \<noteq> None \<and> hex_val h2 \<noteq> None \<and> body_cut q es')
             else False)
      else if py_isprintable c then body_cut q cs
      else False)"

definition lit_cut :: "string \<Rightarrow> bool" where
  "lit_cut s = (case s of [] \<Rightarrow> True | c # cs \<Rightarrow> (c = sq \<or> c = dq) \<and> body_cut c cs)"

function items_cut :: "string \<Rightarrow> bool" where
  "items_cut s =
     (if s = [] \<or> s = '','' then True
      else (case s of
              c # d # rest \<Rightarrow>
                if c = CHR '','' \<and> d = CHR '' '' then
                  (if lit_cut rest then True
                   else (case string_literal rest of
                           None \<Rightarrow> False
                         | Some (x, rest') \<Rightarrow> items_cut rest'))
                else False
            | _ \<Rightarrow> False))"
  by pat_completeness auto
termination
proof (relation "measure length")
  show "wf (measure length)" by simp
next
  fix s :: string and c d :: char and cs rest x2 x y
  assume "s = c # cs" and "cs = d # rest"
    and "string_literal rest = Some x2" and "(x, y) = x2"
  then have "string_literal rest = Some (x, y)" by simp
  from string_literal_length [OF this] \<open>s = c # cs\<close> \<open>cs = d # rest\<close>
  show "(y, s) \<in> measure length" by simp
qed

definition display_cut :: "string \<Rightarrow> bool" where
  "display_cut s =
     (case s of
        [] \<Rightarrow> True
      | c # cs \<Rightarrow>
          c = CHR ''['' \<and>
          (if lit_cut cs then True
           else (case string_literal cs of
                   None \<Rightarrow> False
                 | Some (x, rest) \<Rightarrow> items_cut rest)))"

text \<open>
  Any other text is an expression that \<open>eval\<close> hands to the Python interpreter, in the
  environment of the running process: its value is not fixed by the scripts. The
  interpreter is a parameter: for a source text, the list of strings that
  \<open>list(eval(src))\<close> gives to \<open>", ".join\<close>, or None when the evaluation or the join raises.
\<close>

type_synonym interpreter = "string \<Rightarrow> string list option"

definition py_eval_list :: "interpreter \<Rightarrow> string \<Rightarrow> py_exc + string list" where
  "py_eval_list interp src =
     (case literal_list src of
        Some xs \<Rightarrow> Inr xs
      | None \<Rightarrow>
          if display_cut src then Inl EvalError
          else (case interp src of None \<Rightarrow> Inl EvalError | Some xs \<Rightarrow> Inr xs))"


section \<open>language\_rules.py and template substitution\<close>

record rule =
  rule_start :: string
  rule_var :: string
  rule_method :: string
  rule_end :: string

definition cpp_rule :: rule where
  "cpp_rule =
     \<lparr> rule_start = ''#include <GGEngine/headers/all.h>'' @ [LF] @ ''using namespace gg;''
         @ [LF, LF] @ ''class Game {'' @ [LF] @ ''public:'',
       rule_var = [LF, TAB] @ ''{var_type}* {var_name} = new {class_name}({args});'',
       rule_method = [LF, TAB] @ ''{var_name}->{method_name}({args});'',
       rule_end = [LF] @ ''};'' \<rparr>"

definition rules :: "(string \<times> rule) list" where
  "rules = [(''cpp'', cpp_rule)]"

text \<open>
  \<open>template.format(name=value, ...)\<close> with string values. The text of a replacement
  field runs to the next closing brace. A field that is a plain name is replaced by the
  value of that name (KeyError when there is none; IndexError for an empty or numeric
  field, as no positional argument is passed). Fields with an attribute, an index, a
  conversion or a format specification are not modelled.
\<close>

fun take_field :: "string \<Rightarrow> (string \<times> string) option" where
  "take_field [] = None"
| "take_field (c # cs) =
     (if c = CHR 0x7D then Some ([], cs) else cons_fst c (take_field cs))"

definition field_value :: "(string \<times> string) list \<Rightarrow> string \<Rightarrow> py_exc + string" where
  "field_value kwargs name =
     (if list_ex (\<lambda>c. c \<in> set [CHR ''.'', CHR ''['', CHR ''!'', CHR '':'', CHR 0x7B]) name
      then Inl Unmodelled
      else if list_all (\<lambda>c. c \<in> set ''0123456789'') name then Inl IndexError
      else (case map_of kwargs name of None \<Rightarrow> Inl KeyError | Some v \<Rightarrow> Inr v))"

lemma take_field_length:
  "take_field s = Some (name, rest) \<Longrightarrow> length rest < length s"
proof (induction s arbitrary: name)
  case Nil
  then show ?case by simp
next
  case (Cons c cs)
  show ?case
  proof (cases "c = CHR 0x7D")
    case True
    with Cons.prems show ?thesis by simp
  next
    case False
    with Cons.prems have "cons_fst c (take_field cs) = Some (name, rest)" by simp
    from cons_fst_Some [OF this] obtain b where "take_field cs = Some (b, rest)" by blast
    from Cons.IH [OF this] show ?thesis by simp
  qed
qed

function py_format :: "string \<Rightarrow> (string \<times> string) list \<Rightarrow> py_exc + string" where
  "py_format [] kwargs = Inr []"
| "py_format (c # cs) kwargs =
     (if c = CHR 0x7B then
        (if cs \<noteq> [] \<and> hd cs = CHR 0x7B then
           bind_exc (py_format (tl cs) kwargs) (\<lambda>r. Inr (CHR 0x7B # r))
         else
           (case take_field cs of
              None \<Rightarrow> Inl ValueError
            | Some (name, rest) \<Rightarrow>
                bind_exc (field_value kwargs name) (\<lambda>v.
                bind_exc (py_format rest kwargs) (\<lambda>r. Inr (v @ r)))))
      else if c = CHR 0x7D then
        (if cs \<noteq> [] \<and> hd cs = CHR 0x7D then
           bind_exc (py_format (tl cs) kwargs) (\<lambda>r. Inr (CHR 0x7D # r))
         else Inl ValueError)
      else bind_exc (py_format cs kwargs) (\<lambda>r. Inr (c # r)))"
  by pat_completeness auto
termination
proof (relation "measure (\<lambda>(t, kwargs). length t)")
  show "wf (measure (\<lambda>(t, kwargs). length t))" by simp
next
  fix c :: char and cs :: string and kwargs :: "(string \<times> string) list"
  show "((tl cs, kwargs), c # cs, kwargs) \<in> measure (\<lambda>(t, kwargs). length t)" by simp
next
  fix c :: char and cs :: string and kwargs :: "(string \<times> string) list"
    and x2 :: "string \<times> string" and x y
  assume "take_field cs = Some x2" and "(x, y) = x2"
  then have "take_field cs = Some (x, y)" by simp
  from take_field_length [OF this]
  show "((y, kwargs), c # cs, kwargs) \<in> measure (\<lambda>(t, kwargs). length t)" by simp
next
  fix c :: char and cs :: string and kwargs :: "(string \<times> string) list"
  show "((tl cs, kwargs), c # cs, kwargs) \<in> measure (\<lambda>(t, kwargs). length t)" by simp
next
  fix c :: char and cs :: string and kwargs :: "(string \<times> string) list"
  show "((cs, kwargs), c # cs, kwargs) \<in> measure (\<lambda>(t, kwargs). length t)" by simp
qed



section \<open>convert.py\<close>

text \<open>
  Lines 45-51 and 60-62: the statement read back from a line of the intermediate file;
  None for a line that starts with neither \<open>var\<close> nor \<open>method\<close>.
\<close>

definition read_line :: "interpreter \<Rightarrow> string \<Rightarrow> py_exc + statement option" where
  "read_line interp line =
     bind_exc (py_index (split_ws line) 0) (\<lambda>code_type.
       if code_type = ''var'' then
         bind_exc (py_index (split_ws line) 1) (\<lambda>var_type.
         bind_exc (py_index (split_ws line) 2) (\<lambda>var_name.
         bind_exc (py_index (split_ws line) 3) (\<lambda>class_name.
         bind_exc (py_eval_list interp (py_join '' '' (drop 4 (split_ws line)))) (\<lambda>args.
           Inr (Some (Construct var_type var_name class_name args))))))
       else if code_type = ''method'' then
         bind_exc (py_index (split_ws line) 1) (\<lambda>var_name.
         bind_exc (py_index (split_ws line) 2) (\<lambda>method_name.
         bind_exc (py_index (split_ws line) 3) (\<lambda>args_text.
         bind_exc (py_eval_list interp args_text) (\<lambda>args.
           Inr (Some (Invoke var_name method_name args))))))
       else Inr None)"

text \<open>Lines 52-55 and 63-65: the template of the statement's kind, filled in.\<close>

fun render_statement :: "rule \<Rightarrow> statement \<Rightarrow> py_exc + string" where
  "render_statement r (Construct var_type var_name class_name args) =
     py_format (rule_var r)
       [(''var_type'', var_type), (''var_name'', var_name), (''class_name'', class_name),
        (''args'', py_join '', '' args)]"
| "render_statement r (Invoke var_name method_name args) =
     py_format (rule_method r)
       [(''var_name'', var_name), (''method_name'', method_name),
        (''args'', py_join '', '' args)]"

text \<open>The loop of lines 44-66 over the lines, with \<open>output_text\<close> as accumulator.\<close>

fun convert_lines :: "interpreter \<Rightarrow> rule \<Rightarrow> string \<Rightarrow> string list \<Rightarrow> py_exc + string" where
  "convert_lines interp r output_text [] = Inr output_text"
| "convert_lines interp r output_text (line # ls) =
     (case read_line interp line of
        Inl e \<Rightarrow> Inl e
      | Inr None \<Rightarrow> convert_lines interp r output_text ls
      | Inr (Some st) \<Rightarrow>
          (case render_statement r st of
             Inl e \<Rightarrow> Inl e
           | Inr converted_string \<Rightarrow>
               convert_lines interp r (output_text @ converted_string) ls))"

text \<open>Lines 41-67: the output text for the text of the intermediate file.\<close>

definition convert_text :: "interpreter \<Rightarrow> rule \<Rightarrow> string \<Rightarrow> py_exc + string" where
  "convert_text interp r text =
     bind_exc (convert_lines interp r (rule_start r) (py_readlines (universal_newlines text)))
       (\<lambda>output_text. Inr (output_text @ rule_end r))"

text \<open>
  The statements that the loop reads back from the text of the intermediate file, in
  order; the first exception ends the reading.
\<close>

fun read_lines :: "interpreter \<Rightarrow> string list \<Rightarrow> py_exc + statement list" where
  "read_lines interp [] = Inr []"
| "read_lines interp (line # ls) =
     (case read_line interp line of
        Inl e \<Rightarrow> Inl e
      | Inr None \<Rightarrow> read_lines interp ls
      | Inr (Some st) \<Rightarrow>
          (case read_lines interp ls of Inl e \<Rightarrow> Inl e | Inr sts \<Rightarrow> Inr (st # sts)))"

definition read_statements :: "interpreter \<Rightarrow> string \<Rightarrow> py_exc + statement list" where
  "read_statements interp text = read_lines interp (py_readlines (universal_newlines text))"

text \<open>
  The files are a map from names to contents. \<open>convert(argc, argv)\<close> returns how the
  run ends and the files it leaves; exit codes are not modelled.
\<close>

type_synonym files = "string \<Rightarrow> string option"

definition convert ::
  "interpreter \<Rightarrow> (string \<times> rule) list \<Rightarrow> nat \<Rightarrow> string list \<Rightarrow> files
    \<Rightarrow> (error + unit) \<times> files" where
  "convert interp rs argc argv fs =
     (if argc = 1 then (Inl UsageError, fs)
      else if argc = 2 then (Inl UsageError, fs)
      else (case py_index argv 1 of
              Inl e \<Rightarrow> (Inl (Uncaught e), fs)
            | Inr lang \<Rightarrow>
                (case map_of rs lang of
                   None \<Rightarrow> (Inl UnsupportedTargetError, fs)
                 | Some r \<Rightarrow>
                     (case py_index argv 2 of
                        Inl e \<Rightarrow> (Inl (Uncaught e), fs)
                      | Inr filename \<Rightarrow>
                          (case fs filename of
                             None \<Rightarrow> (Inl FileNotFoundError, fs)
                           | Some text \<Rightarrow>
                               (case convert_text interp r text of
                                  Inl e \<Rightarrow> (Inl (Uncaught e), fs)
                                | Inr output_text \<Rightarrow>
                                    (Inr (), fs(filename \<mapsto> output_text))))))))"


section \<open>parse.py: the script\<close>

text \<open>
  \<open>parse(argc, argv)\<close>: the language check of lines 49-55 comes before any file is
  opened; opening the output file for writing empties it; the intermediate text is
  written only when every line was parsed. Every name can be opened for writing: a
  run in which \<open>open(argv[2], mode="w")\<close> raises is outside the model.
\<close>

definition parse ::
  "interpreter \<Rightarrow> (string \<times> rule) list \<Rightarrow> nat \<Rightarrow> string list \<Rightarrow> files
    \<Rightarrow> (error + unit) \<times> files" where
  "parse interp rs argc argv fs =
     (if argc = 1 then (Inl UsageError, fs)
      else if argc = 2 then (Inl UsageError, fs)
      else if argc = 4 \<and> py_index argv 3 = Inl IndexError then (Inl (Uncaught IndexError), fs)
      else if argc = 4 \<and> map_of rs (argv ! 3) = None \<and> argv ! 3 \<noteq> ''txt''
        then (Inl UnsupportedTargetError, fs)
      else
        (let convert_to = (if argc = 4 then argv ! 3 else ''txt'') in
         case py_index argv 1 of
           Inl e \<Rightarrow> (Inl (Uncaught e), fs)
         | Inr parse_name \<Rightarrow>
             (case fs parse_name of
                None \<Rightarrow> (Inl FileNotFoundError, fs)
              | Some _ \<Rightarrow>
                  (case py_index argv 2 of
                     Inl e \<Rightarrow> (Inl (Uncaught e), fs)
                   | Inr output_name \<Rightarrow>
                       (let fs1 = fs(output_name \<mapsto> []);
                            full_text = universal_newlines (the (fs1 parse_name))
                        in case normalize full_text of
                             Inl e \<Rightarrow> (Inl e, fs1)
                           | Inr stmts \<Rightarrow>
                               (let fs2 = fs1(output_name \<mapsto> intermediate_text stmts)
                                in if convert_to \<noteq> ''txt''
                                   then convert interp rs 3
                                          [''convert.py'', convert_to, output_name] fs2
                                   else (Inr (), fs2)))))))"



section \<open>Statements and the intermediate text\<close>

text \<open>A name that is one token for \<open>line.split()\<close>: not empty and without whitespace.\<close>

definition is_token :: "string \<Rightarrow> bool" where
  "is_token s = (s \<noteq> [] \<and> \<not> list_ex py_isspace s)"

text \<open>
  A statement whose line of the intermediate file is split by \<open>convert\<close> into the fields
  it was written from: the names are tokens; no argument of a declaration has two
  adjacent spaces (line 51 joins the pieces of the argument text with single spaces); a
  call has no argument, or one argument without a space (line 62 evaluates one piece).
\<close>

fun plain_statement :: "statement \<Rightarrow> bool" where
  "plain_statement (Construct var_type var_name class_name args) =
     (is_token var_type \<and> is_token var_name \<and> is_token class_name
      \<and> list_all (\<lambda>a. \<not> py_in ''  '' a) args)"
| "plain_statement (Invoke var_name method_name args) =
     (is_token var_name \<and> is_token method_name
      \<and> (case args of [] \<Rightarrow> True | [a] \<Rightarrow> CHR '' '' \<notin> set a | _ \<Rightarrow> False))"

text \<open>
  An interpreter for one kind of expression that is no list display:
  \<^verbatim>\<open>input().split()+ \<close> followed by a list display, evaluated in a process whose standard
  input holds the line \<open>stdin\<close>. Every other expression raises.
\<close>

definition interp_stdin :: "string \<Rightarrow> interpreter" where
  "interp_stdin stdin src =
     (if prefix ''input().split()+ '' src
      then map_option (\<lambda>xs. split_ws stdin @ xs) (literal_list (drop 17 src))
      else None)"


text \<open>
  A text that \<open>" ".join(text.split())\<close> gives back: it neither starts nor ends with a
  space, has no two adjacent spaces and no whitespace other than spaces.
\<close>

definition single_spaced :: "string \<Rightarrow> bool" where
  "single_spaced s =
     (s \<noteq> [] \<and> hd s \<noteq> CHR '' '' \<and> last s \<noteq> CHR '' '' \<and> \<not> py_in ''  '' s
      \<and> list_all (\<lambda>c. py_isspace c \<longrightarrow> c = CHR '' '') s)"




section \<open>Splitting and indexing\<close>

lemma py_split_nonempty: "py_split sep s \<noteq> []"
  by (induction sep s rule: py_split.induct) (auto split: list.splits)

lemma py_split_notin: "\<not> py_in sep s \<Longrightarrow> py_split sep s = [s]"
  by (induction sep s rule: py_split.induct) (auto split: list.splits)

lemma py_split_in: "py_in sep s \<Longrightarrow> sep \<noteq> [] \<Longrightarrow> 2 \<le> length (py_split sep s)"
proof (induction sep s rule: py_split.induct)
  case (1 sep)
  then show ?case by simp
next
  case (2 sep c cs)
  show ?case
  proof (cases "prefix sep (c # cs)")
    case True
    have "py_split sep (drop (length sep - 1) cs) \<noteq> []" by (rule py_split_nonempty)
    then have "1 \<le> length (py_split sep (drop (length sep - 1) cs))"
      by (cases "py_split sep (drop (length sep - 1) cs)") simp_all
    with True show ?thesis by simp
  next
    case False
    with "2.prems" have "py_in sep cs" by simp
    with "2.IH"(2) False "2.prems" have "2 \<le> length (py_split sep cs)" by simp
    with False show ?thesis by (cases "py_split sep cs") simp_all
  qed
qed

lemma py_index_0: "xs \<noteq> [] \<Longrightarrow> py_index xs 0 = Inr (hd xs)"
  by (cases xs) (simp_all add: py_index_def)

lemma py_index_1: "2 \<le> length xs \<Longrightarrow> py_index xs (Suc 0) = Inr (xs ! Suc 0)"
  by (simp add: py_index_def)

lemma py_index_1_single: "py_index [x] (Suc 0) = Inl IndexError"
  by (simp add: py_index_def)


section \<open>The empty-parameter marker\<close>

text \<open>
  Claim C1: for a line whose parenthesized suffix is the empty-parameter marker \<open>()\<close>,
  for declarations and for calls, the statement has the empty list of arguments.

  The scripts do otherwise. \<open>__args_pattern\<close> recognises \<open>()\<close>, but it is applied to
  \<open>args_string[1:-1]\<close>, where the parentheses are already cut off: for the suffix \<open>()\<close> the
  pattern sees the empty text, and \<open>"".split(" ")\<close> is the list of one empty string.
\<close>

theorem empty_parameter_marker_gives_one_empty_argument:
  "normalize ''m -> go ()'' = Inr [Invoke ''m'' ''go'' [[]]]
   \<and> normalize ''T - m ::= C ()'' = Inr [Construct ''T'' ''m'' ''C'' [[]]]"
  by code_simp


section \<open>The end-to-end scenario\<close>

text \<open>
  Claim C2: the two lines \<open>T - m ::= C (1 2)\<close> and \<open>m -> go ()\<close> are normalized to a
  declaration of \<open>m\<close> with the arguments 1 and 2 and a call of \<open>go\<close> with no argument,
  and the cpp rules render them as the prologue, the declaration
  \<open>T* m = new C(1, 2);\<close>, the call \<open>m->go();\<close> and the epilogue.

  The rendered text is as claimed, for every behaviour of the interpreter. The call
  carries one empty argument instead of none, by the defect of claim C1.
\<close>

theorem end_to_end_scenario:
  "normalize (''T - m ::= C (1 2)'' @ [LF] @ ''m -> go ()'')
     = Inr [Construct ''T'' ''m'' ''C'' [''1'', ''2''], Invoke ''m'' ''go'' [[]]]
   \<and> convert_text interp cpp_rule
       (intermediate_text [Construct ''T'' ''m'' ''C'' [''1'', ''2''], Invoke ''m'' ''go'' [[]]])
     = Inr (rule_start cpp_rule @ [LF, TAB] @ ''T* m = new C(1, 2);''
            @ [LF, TAB] @ ''m->go();'' @ rule_end cpp_rule)"
  by code_simp


section \<open>The line number of a syntax error\<close>

text \<open>
  Claim C3: a line with a marker and without a required delimiter makes the
  normalization fail with a SyntaxError whose line number is the position of the line
  in the original text; a malformed line at line 7 is reported as line 7 even when
  earlier lines were removed with the comments.

  The scripts look the line up by its text, \<open>full_text.split("\n").index(line)\<close>, and
  report the first line of the original text that is equal to it. Below, line 7 is the
  malformed one and line 2, inside a block comment, has the same text: the error names
  line 2. When a comment was cut out of the malformed line itself, no line of the
  original text is equal to it, and the lookup raises ValueError.
\<close>

theorem syntax_error_reports_first_equal_line:
  "normalize (''/*'' @ [LF] @ ''q ::= r'' @ [LF] @ ''*/'' @ [LF] @ [LF] @ ''// c'' @ [LF]
       @ ''a - b ::= C'' @ [LF] @ ''q ::= r'') = Inl (SyntaxError 2)
   \<and> normalize ''x ::= y // c'' = Inl (Uncaught ValueError)"
  by code_simp


section \<open>Unsupported target languages\<close>

text \<open>
  Claim C7: rendering with a target language that is not a key of the rules fails with
  UnsupportedTargetError and writes nothing: the files are left as they were, whatever
  the intermediate file holds. This holds for \<open>convert\<close>, and for \<open>parse\<close> called with
  such a language (other than \<open>txt\<close>, which asks for no conversion).
\<close>

theorem unsupported_target_no_output:
  assumes "map_of rs lang = None"
  shows "convert interp rs 3 [prog, lang, filename] fs = (Inl UnsupportedTargetError, fs)
       \<and> (lang \<noteq> ''txt'' \<longrightarrow>
            parse interp rs 4 [prog, src, out, lang] fs = (Inl UnsupportedTargetError, fs))"
  using assms by (simp add: convert_def parse_def py_index_def)

theorem unsupported_target_no_output_witness:
  "map_of rules ''nolang'' = None \<and> ''nolang'' \<noteq> ''txt'' \<and>
   convert (\<lambda>src. None) rules 3 [''convert.py'', ''nolang'', ''out.txt'']
       [''out.txt'' \<mapsto> ''method m go []'']
     = (Inl UnsupportedTargetError, [''out.txt'' \<mapsto> ''method m go []'']) \<and>
   parse (\<lambda>src. None) rules 4 [''parse.py'', ''in.gg'', ''out.txt'', ''nolang'']
       [''in.gg'' \<mapsto> ''m -> go'']
     = (Inl UnsupportedTargetError, [''in.gg'' \<mapsto> ''m -> go''])"
proof -
  have h: "map_of rules ''nolang'' = None" by (simp add: rules_def)
  from unsupported_target_no_output [OF h] h
  show ?thesis by simp
qed


section \<open>Precedence of the declaration marker\<close>

text \<open>
  Claim C10: a line that contains both the declaration marker and the call marker is
  parsed as a declaration, never as a call: with the separator of type and name it
  gives a Construct, without it the IndexError that becomes the SyntaxError.
\<close>

theorem declaration_marker_precedence:
  assumes "py_in '' ::= '' line" and "py_in '' -> '' line"
  shows "if py_in '' - '' line
         then \<exists>var_type var_name class_name args.
                parse_line line = Inr (Some (Construct var_type var_name class_name args))
         else parse_line line = Inl IndexError"
proof (cases "py_in '' - '' line")
  case True
  then have "2 \<le> length (py_split '' - '' line)" by (simp add: py_split_in)
  moreover from assms(1) have "2 \<le> length (py_split '' ::= '' line)" by (simp add: py_split_in)
  ultimately show ?thesis
    using True assms(1)
    by (simp add: parse_line_def parse_construct_def bind_exc_def py_index_0 py_index_1
        py_split_nonempty)
next
  case False
  then have "py_split '' - '' line = [line]" by (rule py_split_notin)
  with False assms(1) show ?thesis
    by (simp add: parse_line_def parse_construct_def bind_exc_def py_index_0 py_index_1_single)
qed

theorem declaration_marker_precedence_witness:
  "py_in '' ::= '' ''a - b ::= c -> d'' \<and> py_in '' -> '' ''a - b ::= c -> d'' \<and>
   py_in '' - '' ''a - b ::= c -> d'' \<and>
   parse_line ''a - b ::= c -> d''
     = Inr (Some (Construct ''a'' ''b'' ''c -> d'' [''>'', []]))"
proof -
  have a: "py_in '' ::= '' ''a - b ::= c -> d''" by code_simp
  have b: "py_in '' -> '' ''a - b ::= c -> d''" by code_simp
  have c: "py_in '' - '' ''a - b ::= c -> d''" by code_simp
  have d: "parse_line ''a - b ::= c -> d''
     = Inr (Some (Construct ''a'' ''b'' ''c -> d'' [''>'', []]))"
    by code_simp
  from declaration_marker_precedence [OF a b] a b c d show ?thesis by simp
qed



section \<open>Comment stripping\<close>

declare strip_comments.simps [simp del]

declare written_before.simps [simp del]

lemma match_SomeE:
  assumes "comments_pattern_match (c # cs) = Some (g, rest)"
  obtains (lit) body where "c = dq \<or> c = sq" "find_close c c cs = Some (body, rest)"
      "g = Some (c # body @ [c])"
  | (block) ds where "c = CHR ''/''" "cs = CHR ''*'' # ds" "find_block_end ds = Some rest"
      "g = None"
  | (line) ds where "c = CHR ''/''" "cs = CHR ''/'' # ds" "line_comment_end ds = Some rest"
      "g = None"
  using assms
  by (auto simp: comments_pattern_match_def split: if_splits option.splits list.splits)

lemma strip_none: "comments_pattern_match (c # cs) = None \<Longrightarrow>
    strip_comments (c # cs) = c # strip_comments cs"
  by (simp add: strip_comments.simps)

lemma strip_lit: "c = dq \<or> c = sq \<Longrightarrow> find_close c c cs = Some (body, rest) \<Longrightarrow>
    strip_comments (c # cs) = c # body @ c # strip_comments rest"
  by (auto simp: strip_comments.simps comments_pattern_match_def)

lemma strip_block: "find_block_end ds = Some rest \<Longrightarrow>
    strip_comments (CHR ''/'' # CHR ''*'' # ds) = strip_comments rest"
  by (simp add: strip_comments.simps comments_pattern_match_def)

lemma strip_line: "line_comment_end ds = Some rest \<Longrightarrow>
    strip_comments (CHR ''/'' # CHR ''/'' # ds) = strip_comments rest"
  by (simp add: strip_comments.simps comments_pattern_match_def)

lemma strip_induct [case_names Nil plain lit block line]:
  assumes "P []"
    and "\<And>c cs. comments_pattern_match (c # cs) = None \<Longrightarrow> P cs \<Longrightarrow> P (c # cs)"
    and "\<And>c cs body rest. c = dq \<or> c = sq \<Longrightarrow> find_close c c cs = Some (body, rest) \<Longrightarrow>
           P rest \<Longrightarrow> P (c # cs)"
    and "\<And>ds rest. find_block_end ds = Some rest \<Longrightarrow> P rest \<Longrightarrow>
           P (CHR ''/'' # CHR ''*'' # ds)"
    and "\<And>ds rest. line_comment_end ds = Some rest \<Longrightarrow> P rest \<Longrightarrow>
           P (CHR ''/'' # CHR ''/'' # ds)"
  shows "P s"
proof (induction s rule: length_induct)
  case (1 s)
  show ?case
  proof (cases s)
    case Nil
    with assms(1) show ?thesis by simp
  next
    case (Cons c cs)
    show ?thesis
    proof (cases "comments_pattern_match (c # cs)")
      case None
      from 1 Cons have "P cs" by simp
      with None assms(2) Cons show ?thesis by simp
    next
      case (Some m)
      obtain g rest where m: "m = (g, rest)" by (cases m)
      with Some have sm: "comments_pattern_match (c # cs) = Some (g, rest)" by simp
      from comments_pattern_match_length [OF sm] 1 Cons have pr: "P rest" by simp
      from sm show ?thesis
      proof (cases rule: match_SomeE)
        case (lit body)
        with pr assms(3) Cons show ?thesis by simp
      next
        case (block ds)
        with pr assms(4) Cons show ?thesis by simp
      next
        case (line ds)
        with pr assms(5) Cons show ?thesis by simp
      qed
    qed
  qed
qed

lemma find_close_append:
  "find_close q prev (a @ b) =
     (case find_close q prev a of
        Some (body, rest) \<Rightarrow> Some (body, rest @ b)
      | None \<Rightarrow>
          (case find_close q (last (prev # a)) b of
             None \<Rightarrow> None
           | Some (body, rest) \<Rightarrow> Some (a @ body, rest)))"
  by (induction a arbitrary: prev) (auto split: option.splits)

lemma find_close_append_None:
  "find_close q prev (a @ b) = None \<longleftrightarrow>
     find_close q prev a = None \<and> find_close q (last (prev # a)) b = None"
  by (simp add: find_close_append split: option.splits)

lemma find_close_decomp:
  "find_close q prev s = Some (body, rest) \<Longrightarrow> s = body @ q # rest"
  by (induction s arbitrary: prev body) (auto split: if_splits option.splits)

lemma find_close_again:
  "find_close q prev s = Some (body, rest) \<Longrightarrow>
   find_close q prev (body @ q # rest') = Some (body, rest')"
  by (induction s arbitrary: prev body) (auto split: if_splits option.splits)

lemma find_close_prev:
  "find_close q p s = None \<Longrightarrow> p \<noteq> bsl \<Longrightarrow> find_close q p' s = None"
  by (cases s) (auto split: if_splits option.splits)

lemma find_close_prev_other:
  "c \<noteq> q \<Longrightarrow> find_close q p (c # cs) = find_close q p' (c # cs)"
  by simp

lemma find_block_end_decomp:
  "find_block_end ds = Some rest \<Longrightarrow> \<exists>mid. ds = mid @ ''*/'' @ rest"
proof (induction ds rule: find_block_end.induct)
  case (1 c d cs)
  show ?case
  proof (cases "c = CHR ''*'' \<and> d = CHR ''/''")
    case True
    with "1.prems" have "c # d # cs = [] @ ''*/'' @ rest" by simp
    then show ?thesis by blast
  next
    case False
    with "1.prems" have "find_block_end (d # cs) = Some rest" by simp
    with "1.IH" False obtain mid where "d # cs = mid @ ''*/'' @ rest" by blast
    then have "c # d # cs = (c # mid) @ ''*/'' @ rest" by simp
    then show ?thesis by blast
  qed
qed simp_all

lemma line_comment_end_decomp:
  "line_comment_end ds = Some rest \<Longrightarrow>
   (\<exists>mid. ds = mid @ rest) \<and> (rest = [] \<or> (\<exists>r. rest = LF # r))"
proof (induction ds)
  case Nil
  then show ?case by simp
next
  case (Cons c cs)
  show ?case
  proof (cases "c = LF")
    case True
    with Cons.prems have "c # cs = [] @ rest" by simp
    with True Cons.prems show ?thesis by auto
  next
    case False
    with Cons.prems have "line_comment_end cs = Some rest" by (simp split: if_splits)
    with Cons.IH obtain mid where "cs = mid @ rest" and r: "rest = [] \<or> (\<exists>r. rest = LF # r)"
      by blast
    then have "c # cs = (c # mid) @ rest" by simp
    with r show ?thesis by blast
  qed
qed

lemma line_comment_end_no_CR: "CR \<notin> set s \<Longrightarrow> line_comment_end s \<noteq> None"
  by (induction s) auto


lemma strip_comments_Nil: "strip_comments [] = []"
  by (simp add: strip_comments.simps)

lemma match_LF: "comments_pattern_match (LF # r) = None"
  by (simp add: comments_pattern_match_def)

lemma find_close_strip_None:
  assumes q: "q = dq \<or> q = sq"
  shows "find_close q p s = None \<Longrightarrow> find_close q p (strip_comments s) = None"
proof (induction s arbitrary: p rule: strip_induct)
  case Nil
  then show ?case by (simp add: strip_comments_Nil)
next
  case (plain c cs)
  from plain.prems have 1: "\<not> (c = q \<and> p \<noteq> bsl)" and 2: "find_close q c cs = None"
    by (auto split: if_splits option.splits)
  from plain.IH [OF 2] 1 show ?case
    by (simp add: strip_none [OF plain.hyps])
next
  case (lit c cs body rest)
  from find_close_decomp [OF lit.hyps(2)] have cs: "cs = body @ c # rest" .
  have eq: "c # cs = (c # body @ [c]) @ rest" using cs by simp
  have l: "last (p # c # body @ [c]) = c" by simp
  from lit.prems have "find_close q p ((c # body @ [c]) @ rest) = None"
    unfolding eq .
  then have a: "find_close q p (c # body @ [c]) = None"
    and b: "find_close q c rest = None"
    unfolding find_close_append_None l by blast+
  from lit.IH [OF b] have "find_close q c (strip_comments rest) = None" .
  with a have "find_close q p ((c # body @ [c]) @ strip_comments rest) = None"
    unfolding find_close_append_None l by blast
  then show ?case by (simp add: strip_lit [OF lit.hyps(1,2)])
next
  case (block ds rest)
  from find_block_end_decomp [OF block.hyps] obtain mid where ds: "ds = mid @ ''*/'' @ rest"
    by blast
  have eq: "CHR ''/'' # CHR ''*'' # ds = (''/*'' @ mid @ ''*/'') @ rest" using ds by simp
  from block.prems have "find_close q p ((''/*'' @ mid @ ''*/'') @ rest) = None"
    unfolding eq .
  then have "find_close q (CHR ''/'') rest = None"
    unfolding find_close_append_None by simp
  from block.IH [OF this] have "find_close q p (strip_comments rest) = None"
    by (rule find_close_prev) simp
  then show ?case by (simp add: strip_block [OF block.hyps])
next
  case (line ds rest)
  from line_comment_end_decomp [OF line.hyps] obtain mid where ds: "ds = mid @ rest"
    and r: "rest = [] \<or> (\<exists>r. rest = LF # r)" by blast
  have eq: "CHR ''/'' # CHR ''/'' # ds = (''//'' @ mid) @ rest" using ds by simp
  from line.prems have "find_close q p ((''//'' @ mid) @ rest) = None"
    unfolding eq .
  then have n: "find_close q (last (p # ''//'' @ mid)) rest = None"
    unfolding find_close_append_None by blast
  from r have "find_close q p (strip_comments rest) = None"
  proof
    assume "rest = []"
    then show ?thesis by (simp add: strip_comments_Nil)
  next
    assume "\<exists>r. rest = LF # r"
    then obtain r where rest: "rest = LF # r" by blast
    have lq: "LF \<noteq> q" using q by auto
    from line.IH [OF n] have "find_close q (last (p # ''//'' @ mid)) (strip_comments rest) = None" .
    then show ?thesis
      using lq by (simp add: rest strip_none [OF match_LF])
  qed
  then show ?case by (simp add: strip_line [OF line.hyps])
qed

lemma strip_comments_hd:
  "strip_comments s = x # xs \<Longrightarrow> (\<exists>t. s = x # t) \<or> (\<exists>t. s = CHR ''/'' # t)"
proof (induction s rule: strip_induct)
  case Nil
  then show ?case by (simp add: strip_comments_Nil)
next
  case (plain c cs)
  then show ?case by (simp add: strip_none)
next
  case (lit c cs body rest)
  then show ?case by (simp add: strip_lit)
next
  case (block ds rest)
  then show ?case by simp
next
  case (line ds rest)
  then show ?case by simp
qed

lemma find_block_end_tl: "find_block_end (c # cs) = None \<Longrightarrow> find_block_end cs = None"
  by (cases cs) (auto split: if_splits)

lemma find_block_end_suffix: "find_block_end (a @ b) = None \<Longrightarrow> find_block_end b = None"
  by (induction a) (auto dest: find_block_end_tl)

lemma find_block_end_Cons_None:
  "find_block_end cs = None \<Longrightarrow> \<not> (c = CHR ''*'' \<and> (\<exists>t. cs = CHR ''/'' # t)) \<Longrightarrow>
   find_block_end (c # cs) = None"
  by (cases cs) auto

lemma find_block_end_append_None:
  "find_block_end a = None \<Longrightarrow> find_block_end b = None \<Longrightarrow>
   a = [] \<or> last a \<noteq> CHR ''*'' \<Longrightarrow> find_block_end (a @ b) = None"
proof (induction a)
  case Nil
  then show ?case by simp
next
  case (Cons c cs)
  from Cons.prems(1) have t: "find_block_end cs = None" by (rule find_block_end_tl)
  show ?case
  proof (cases cs)
    case Nil
    with Cons.prems show ?thesis by (cases b) auto
  next
    case (Cons d ds)
    with Cons.prems(3) have "cs = [] \<or> last cs \<noteq> CHR ''*''" by simp
    from Cons.IH [OF t Cons.prems(2) this] have "find_block_end (cs @ b) = None" .
    moreover from Cons.prems(1) Cons have "\<not> (c = CHR ''*'' \<and> d = CHR ''/'')"
      by (auto split: if_splits)
    ultimately show ?thesis using Cons by simp
  qed
qed

lemma find_block_end_strip_None:
  "find_block_end s = None \<Longrightarrow> find_block_end (strip_comments s) = None"
proof (induction s rule: strip_induct)
  case Nil
  then show ?case by (simp add: strip_comments_Nil)
next
  case (plain c cs)
  from plain.prems have t: "find_block_end cs = None" by (rule find_block_end_tl)
  from plain.IH [OF t] have i: "find_block_end (strip_comments cs) = None" .
  have "\<not> (c = CHR ''*'' \<and> (\<exists>t. strip_comments cs = CHR ''/'' # t))"
  proof
    assume a: "c = CHR ''*'' \<and> (\<exists>t. strip_comments cs = CHR ''/'' # t)"
    then obtain t where "strip_comments cs = CHR ''/'' # t" by blast
    from strip_comments_hd [OF this] obtain t' where "cs = CHR ''/'' # t'" by blast
    with a plain.prems show False by simp
  qed
  from find_block_end_Cons_None [OF i this] show ?case
    by (simp add: strip_none [OF plain.hyps])
next
  case (lit c cs body rest)
  from find_close_decomp [OF lit.hyps(2)] have cs: "cs = body @ c # rest" .
  have eq: "c # cs = (c # body @ [c]) @ rest" using cs by simp
  from lit.prems have n: "find_block_end ((c # body @ [c]) @ rest) = None" unfolding eq .
  then have r: "find_block_end rest = None" by (rule find_block_end_suffix)
  have a: "find_block_end (c # body @ [c]) = None"
  proof (rule ccontr)
    assume "find_block_end (c # body @ [c]) \<noteq> None"
    then obtain y where "find_block_end (c # body @ [c]) = Some y" by blast
    from find_block_end_decomp [OF this] obtain mid where
      "c # body @ [c] = mid @ ''*/'' @ y" by blast
    then have "(c # body @ [c]) @ rest = mid @ ''*/'' @ (y @ rest)" by simp
    then have "find_block_end (mid @ ''*/'' @ (y @ rest)) = None" using n by simp
    from find_block_end_suffix [OF this] show False by simp
  qed
  from lit.hyps(1) have "last (c # body @ [c]) \<noteq> CHR ''*''" by auto
  with find_block_end_append_None [OF a lit.IH [OF r]]
  have "find_block_end ((c # body @ [c]) @ strip_comments rest) = None" by blast
  then show ?case by (simp add: strip_lit [OF lit.hyps(1,2)])
next
  case (block ds rest)
  from find_block_end_decomp [OF block.hyps] obtain mid where "ds = mid @ ''*/'' @ rest"
    by blast
  then have "CHR ''/'' # CHR ''*'' # ds = (''/*'' @ mid) @ ''*/'' @ rest" by simp
  with block.prems have "find_block_end ((''/*'' @ mid) @ ''*/'' @ rest) = None" by simp
  from find_block_end_suffix [OF this] show ?case by simp
next
  case (line ds rest)
  from line_comment_end_decomp [OF line.hyps] obtain mid where "ds = mid @ rest" by blast
  then have "CHR ''/'' # CHR ''/'' # ds = (''//'' @ mid) @ rest" by simp
  with line.prems have "find_block_end ((''//'' @ mid) @ rest) = None" by simp
  from line.IH [OF find_block_end_suffix [OF this]] show ?case
    by (simp add: strip_line [OF line.hyps])
qed


lemma match_star: "comments_pattern_match (CHR ''*'' # ds) = None"
  by (simp add: comments_pattern_match_def)

lemma match_NoneE:
  assumes "comments_pattern_match (c # cs) = None"
  obtains (quote) "c = dq \<or> c = sq" "find_close c c cs = None"
  | (slash_end) "c = CHR ''/''" "cs = []"
  | (slash_star) ds where "c = CHR ''/''" "cs = CHR ''*'' # ds" "find_block_end ds = None"
  | (slash_slash) ds where "c = CHR ''/''" "cs = CHR ''/'' # ds" "line_comment_end ds = None"
  | (slash_other) d ds where "c = CHR ''/''" "cs = d # ds" "d \<noteq> CHR ''*''" "d \<noteq> CHR ''/''"
  | (other) "c \<noteq> dq" "c \<noteq> sq" "c \<noteq> CHR ''/''"
  using assms
  by (auto simp: comments_pattern_match_def split: if_splits option.splits list.splits)


lemma match_lit:
  "c = dq \<or> c = sq \<Longrightarrow> find_close c c cs = Some (body, rest)
    \<Longrightarrow> comments_pattern_match (c # cs) = Some (Some (c # body @ [c]), rest)"
  by (auto simp: comments_pattern_match_def)

lemma match_block:
  "find_block_end ds = Some rest
    \<Longrightarrow> comments_pattern_match (CHR ''/'' # CHR ''*'' # ds) = Some (None, rest)"
  by (simp add: comments_pattern_match_def)

lemma match_line:
  "line_comment_end ds = Some rest
    \<Longrightarrow> comments_pattern_match (CHR ''/'' # CHR ''/'' # ds) = Some (None, rest)"
  by (simp add: comments_pattern_match_def)

lemma written_before_same: "written_before t t = Some []"
  by (simp add: written_before.simps [of t t])

lemma written_before_Nil: "written_before t [] = Some out \<Longrightarrow> t = [] \<and> out = []"
  by (simp add: written_before.simps [of t "[]"] split: if_splits)

lemma written_before_Cons:
  "c # cs \<noteq> t \<Longrightarrow> written_before t (c # cs) =
     (case comments_pattern_match (c # cs) of
        None \<Rightarrow> map_option ((#) c) (written_before t cs)
      | Some (g1, rest) \<Rightarrow>
          map_option ((@) (case g1 of None \<Rightarrow> [] | Some lit \<Rightarrow> lit)) (written_before t rest))"
  by (simp add: written_before.simps [of t "c # cs"])

lemma written_before_strip:
  "written_before t s = Some out \<Longrightarrow> strip_comments s = out @ strip_comments t"
proof (induction s arbitrary: out rule: strip_induct)
  case Nil
  from written_before_Nil [OF this] show ?case by simp
next
  case (plain c cs)
  show ?case
  proof (cases "c # cs = t")
    case True
    with plain.prems show ?thesis by (auto simp: written_before_same)
  next
    case False
    with plain.prems plain.hyps obtain o' where o: "written_before t cs = Some o'" "out = c # o'"
      by (auto simp: written_before_Cons)
    from plain.IH [OF o(1)] o(2) strip_none [OF plain.hyps] show ?thesis by simp
  qed
next
  case (lit c cs body rest)
  note m = match_lit [OF lit.hyps]
  show ?case
  proof (cases "c # cs = t")
    case True
    with lit.prems show ?thesis by (auto simp: written_before_same)
  next
    case False
    with lit.prems m obtain o' where o: "written_before t rest = Some o'"
        "out = (c # body @ [c]) @ o'"
      by (auto simp: written_before_Cons)
    from lit.IH [OF o(1)] o(2) strip_lit [OF lit.hyps] show ?thesis by simp
  qed
next
  case (block ds rest)
  note m = match_block [OF block.hyps]
  show ?case
  proof (cases "CHR ''/'' # CHR ''*'' # ds = t")
    case True
    with block.prems show ?thesis by (auto simp: written_before_same)
  next
    case False
    with block.prems m have o: "written_before t rest = Some out"
      by (auto simp: written_before_Cons)
    from block.IH [OF o] strip_block [OF block.hyps] show ?thesis by simp
  qed
next
  case (line ds rest)
  note m = match_line [OF line.hyps]
  show ?case
  proof (cases "CHR ''/'' # CHR ''/'' # ds = t")
    case True
    with line.prems show ?thesis by (auto simp: written_before_same)
  next
    case False
    with line.prems m have o: "written_before t rest = Some out"
      by (auto simp: written_before_Cons)
    from line.IH [OF o] strip_line [OF line.hyps] show ?thesis by simp
  qed
qed

lemma find_close_escaped:
  "\<not> list_ex (\<lambda>(p, c). c = q \<and> p \<noteq> bsl) (zip (prev # body) body)
    \<Longrightarrow> last (prev # body) \<noteq> bsl
    \<Longrightarrow> find_close q prev (body @ q # post) = Some (body, post)"
proof (induction body arbitrary: prev)
  case Nil
  then show ?case by simp
next
  case (Cons c cs)
  from Cons.prems(1) have n: "\<not> (c = q \<and> prev \<noteq> bsl)"
    and r: "\<not> list_ex (\<lambda>(p, c). c = q \<and> p \<noteq> bsl) (zip (c # cs) cs)"
    by simp_all
  from Cons.prems(2) have "last (c # cs) \<noteq> bsl" by simp
  from Cons.IH [OF r this] n show ?case by auto
qed

text \<open>
  Claim C5: comment stripping never removes a comment marker inside a quoted literal;
  in every text a run between matching quotes is kept as it is; the line
  \<open>var s - x ::= T ("// not a comment")\<close> keeps its literal.

  A literal is a quote \<open>q\<close>, a body in which every \<open>q\<close> follows a backslash and which
  does not end in a backslash, and \<open>q\<close> again. It stands in the text \<open>s\<close> where the
  search for the next match arrives, that is, it begins neither inside a comment nor
  inside an earlier literal; \<open>out\<close> is what is written of the text before it. The
  literal is copied whatever its body holds, and the stripping goes on behind it.
\<close>

theorem quoted_literal_preserved:
  assumes "q = dq \<or> q = sq"
    and "written_before (q # body @ q # post) s = Some out"
    and "\<not> list_ex (\<lambda>(p, c). c = q \<and> p \<noteq> bsl) (zip (q # body) body)"
    and "last (q # body) \<noteq> bsl"
  shows "strip_comments s = out @ q # body @ q # strip_comments post"
proof -
  from assms(3,4) have "find_close q q (body @ q # post) = Some (body, post)"
    by (rule find_close_escaped)
  with assms(1) have "strip_comments (q # body @ q # post) = q # body @ q # strip_comments post"
    by (rule strip_lit)
  with written_before_strip [OF assms(2)] show ?thesis by simp
qed

theorem quoted_literal_preserved_witness:
  "strip_comments (''var s - x ::= T ('' @ dq # ''// not a comment'' @ dq # '')'')
     = ''var s - x ::= T ('' @ dq # ''// not a comment'' @ dq # '')''
   \<and> strip_comments (''a = b / c; /* one */ t = '' @ sq # ''it'' @ bsl # sq # ''s /* here */''
        @ sq # ''; // end'')
     = ''a = b / c;  t = '' @ sq # ''it'' @ bsl # sq # ''s /* here */'' @ sq # ''; ''"
proof -
  have w1: "written_before (dq # ''// not a comment'' @ dq # '')'')
      (''var s - x ::= T ('' @ dq # ''// not a comment'' @ dq # '')'')
    = Some ''var s - x ::= T (''"
    by code_simp
  have e1: "\<not> list_ex (\<lambda>(p, c). c = dq \<and> p \<noteq> bsl)
      (zip (dq # ''// not a comment'') ''// not a comment'')"
    by code_simp
  have l1: "last (dq # ''// not a comment'') \<noteq> bsl" by simp
  have p1: "strip_comments '')'' = '')''" by code_simp
  have w2: "written_before (sq # (''it'' @ bsl # sq # ''s /* here */'') @ sq # ''; // end'')
      (''a = b / c; /* one */ t = '' @ sq # ''it'' @ bsl # sq # ''s /* here */''
        @ sq # ''; // end'')
    = Some ''a = b / c;  t = ''"
    by code_simp
  have e2: "\<not> list_ex (\<lambda>(p, c). c = sq \<and> p \<noteq> bsl)
      (zip (sq # (''it'' @ bsl # sq # ''s /* here */'')) (''it'' @ bsl # sq # ''s /* here */''))"
    by code_simp
  have l2: "last (sq # (''it'' @ bsl # sq # ''s /* here */'')) \<noteq> bsl" by simp
  have p2: "strip_comments ''; // end'' = ''; ''" by code_simp
  from quoted_literal_preserved [OF _ w1 e1 l1] quoted_literal_preserved [OF _ w2 e2 l2] p1 p2
  show ?thesis by simp
qed

lemma strip_comments_idempotent_no_CR:
  "CR \<notin> set s \<Longrightarrow> strip_comments (strip_comments s) = strip_comments s"
proof (induction s rule: strip_induct)
  case Nil
  then show ?case by (simp add: strip_comments_Nil)
next
  case (plain c cs)
  from plain.prems have cr: "CR \<notin> set cs" by simp
  from plain.IH [OF cr] have ih: "strip_comments (strip_comments cs) = strip_comments cs" .
  have "comments_pattern_match (c # strip_comments cs) = None"
    using plain.hyps
  proof (cases rule: match_NoneE)
    case quote
    from find_close_strip_None [OF quote(1,2)] quote(1) show ?thesis
      by (auto simp: comments_pattern_match_def)
  next
    case slash_end
    then show ?thesis by (simp add: strip_comments_Nil comments_pattern_match_def)
  next
    case (slash_star ds)
    from find_block_end_strip_None [OF slash_star(3)] slash_star(1,2) show ?thesis
      by (simp add: strip_none [OF match_star] comments_pattern_match_def)
  next
    case (slash_slash ds)
    from cr slash_slash(2) have "CR \<notin> set ds" by simp
    from line_comment_end_no_CR [OF this] slash_slash(3) show ?thesis by simp
  next
    case (slash_other d ds)
    show ?thesis
    proof (cases "strip_comments cs")
      case Nil
      with slash_other(1) show ?thesis by (simp add: comments_pattern_match_def)
    next
      case (Cons x xs)
      from strip_comments_hd [OF Cons] slash_other(2,4) have "x = d" by auto
      with Cons slash_other show ?thesis by (simp add: comments_pattern_match_def)
    qed
  next
    case other
    then show ?thesis by (simp add: comments_pattern_match_def)
  qed
  from strip_none [OF this] ih show ?case
    by (simp add: strip_none [OF plain.hyps])
next
  case (lit c cs body rest)
  from find_close_decomp [OF lit.hyps(2)] have cs: "cs = body @ c # rest" .
  with lit.prems have "CR \<notin> set rest" by simp
  from lit.IH [OF this] have ih: "strip_comments (strip_comments rest) = strip_comments rest" .
  from find_close_again [OF lit.hyps(2)]
  have "find_close c c (body @ c # strip_comments rest) = Some (body, strip_comments rest)" .
  from strip_lit [OF lit.hyps(1) this] ih show ?case
    by (simp add: strip_lit [OF lit.hyps(1,2)])
next
  case (block ds rest)
  from find_block_end_decomp [OF block.hyps] obtain mid where "ds = mid @ ''*/'' @ rest"
    by blast
  with block.prems have "CR \<notin> set rest" by simp
  from block.IH [OF this] show ?case by (simp add: strip_block [OF block.hyps])
next
  case (line ds rest)
  from line_comment_end_decomp [OF line.hyps] obtain mid where "ds = mid @ rest" by blast
  with line.prems have "CR \<notin> set rest" by simp
  from line.IH [OF this] show ?case by (simp add: strip_line [OF line.hyps])
qed

lemma universal_newlines_no_CR: "CR \<notin> set (universal_newlines s)"
  by (induction s rule: universal_newlines.induct) auto


text \<open>
  A text with a carriage return does not reach the pattern: \<open>parse\<close> reads its file
  opened with \<open>mode="r"\<close>, so with the carriage returns translated. On such a text
  \<^verbatim>\<open>//[^\r\n]*$\<close> does not match before a carriage return, and a second pass can remove
  what the first one left.
\<close>

lemma strip_comments_CR_example:
  "strip_comments (''///*'' @ [CR] @ ''*/'') = ''//''
   \<and> strip_comments ''//'' = []"
  by code_simp

text \<open>
  Claim C6: comment stripping is idempotent: on every input text, stripping twice gives
  the same as stripping once.

  The input text of the stripping is what \<open>parse_file.read()\<close> returns for the content
  \<open>raw\<close> of the file, \<open>universal_newlines raw\<close>; the property holds on every text
  without a carriage return, and these texts have none.
\<close>

theorem strip_comments_idempotent:
  "(CR \<notin> set s \<longrightarrow> strip_comments (strip_comments s) = strip_comments s)
   \<and> strip_comments (strip_comments (universal_newlines raw))
       = strip_comments (universal_newlines raw)"
  using strip_comments_idempotent_no_CR universal_newlines_no_CR by blast

theorem strip_comments_idempotent_witness:
  "CR \<notin> set (''a = 1 // c'' @ [LF] @ ''/* x */ b'') \<and>
   strip_comments (''a = 1 // c'' @ [LF] @ ''/* x */ b'') = ''a = 1 '' @ [LF] @ '' b'' \<and>
   strip_comments (strip_comments (''a = 1 // c'' @ [LF] @ ''/* x */ b''))
     = strip_comments (''a = 1 // c'' @ [LF] @ ''/* x */ b'')"
proof -
  have h: "CR \<notin> set (''a = 1 // c'' @ [LF] @ ''/* x */ b'')" by simp
  have e: "strip_comments (''a = 1 // c'' @ [LF] @ ''/* x */ b'') = ''a = 1 '' @ [LF] @ '' b''"
    by code_simp
  from strip_comments_idempotent [of "''a = 1 // c'' @ [LF] @ ''/* x */ b''"] h e
  show ?thesis by simp
qed



section \<open>The statements that the normalization produces\<close>

lemma split_ws_token: "w \<in> set (split_ws s) \<Longrightarrow> c \<in> set w \<Longrightarrow> \<not> py_isspace c"
proof (induction s arbitrary: w rule: split_ws.induct)
  case 1
  then show ?case by simp
next
  case (2 d ds)
  show ?case
  proof (cases "py_isspace d")
    case True
    with 2 show ?thesis by simp
  next
    case nd: False
    show ?thesis
    proof (cases ds)
      case Nil
      with nd "2.prems" show ?thesis by auto
    next
      case (Cons e es)
      show ?thesis
      proof (cases "py_isspace e")
        case True
        with nd Cons "2.prems" have "w = [d] \<or> w \<in> set (split_ws ds)" by auto
        with "2.IH"(2) [OF nd Cons True] nd "2.prems"(2) show ?thesis by auto
      next
        case False
        show ?thesis
        proof (cases "split_ws ds")
          case Nil
          with nd Cons False "2.prems" show ?thesis by auto
        next
          case (Cons v vs)
          with nd \<open>ds = e # es\<close> False "2.prems"
          have "w = d # v \<or> w \<in> set vs" by auto
          then show ?thesis
          proof
            assume "w = d # v"
            with "2.prems"(2) have "c = d \<or> c \<in> set v" by auto
            with nd "2.IH"(3) [OF nd \<open>ds = e # es\<close> False, of v] Cons show ?thesis by auto
          next
            assume "w \<in> set vs"
            with "2.IH"(3) [OF nd \<open>ds = e # es\<close> False, of w] Cons "2.prems"(2)
            show ?thesis by auto
          qed
        qed
      qed
    qed
  qed
qed

lemma set_py_join: "c \<in> set (py_join sep xs) \<Longrightarrow> c \<in> set sep \<or> (\<exists>x\<in>set xs. c \<in> set x)"
  by (induction sep xs rule: py_join.induct) auto

lemma py_split_subset: "p \<in> set (py_split sep s) \<Longrightarrow> c \<in> set p \<Longrightarrow> c \<in> set s"
proof (induction sep s arbitrary: p rule: py_split.induct)
  case (1 sep)
  then show ?case by simp
next
  case (2 sep d ds)
  show ?case
  proof (cases "prefix sep (d # ds)")
    case True
    with "2.prems" have "p \<in> set (py_split sep (drop (length sep - 1) ds))" by auto
    from "2.IH"(1) [OF True this "2.prems"(2)] show ?thesis by (auto dest: in_set_dropD)
  next
    case False
    show ?thesis
    proof (cases "py_split sep ds")
      case Nil
      with False "2.prems" show ?thesis by auto
    next
      case (Cons v vs)
      with False "2.prems" have "p = d # v \<or> p \<in> set vs" by auto
      with "2.IH"(2) [OF False, of v] "2.IH"(2) [OF False, of p] Cons "2.prems"(2)
      show ?thesis by auto
    qed
  qed
qed

lemma py_split_single: "p \<in> set (py_split [d] s) \<Longrightarrow> d \<notin> set p"
proof (induction "[d]" s arbitrary: p rule: py_split.induct)
  case 1
  then show ?case by simp
next
  case (2 e es)
  show ?case
  proof (cases "prefix [d] (e # es)")
    case True
    with "2.prems" have "p = [] \<or> p \<in> set (py_split [d] es)" by auto
    with "2.hyps"(1) [OF True, of p] show ?thesis by auto
  next
    case False
    then have ne: "e \<noteq> d" by auto
    show ?thesis
    proof (cases "py_split [d] es")
      case Nil
      with False "2.prems" ne show ?thesis by auto
    next
      case (Cons v vs)
      with False "2.prems" have "p = e # v \<or> p \<in> set vs" by auto
      with "2.hyps"(2) [OF False, of v] "2.hyps"(2) [OF False, of p] Cons ne
      show ?thesis by auto
    qed
  qed
qed

lemma set_args_pattern_sub: "c \<in> set (args_pattern_sub s) \<Longrightarrow> c \<in> set s"
  by (auto simp: args_pattern_sub_def split: if_splits)

lemma set_slice_1_m1: "c \<in> set (slice_1_m1 s) \<Longrightarrow> c \<in> set s"
  by (auto simp: slice_1_m1_def dest: in_set_butlastD in_set_dropD)

lemma parse_args_no_space:
  assumes "a \<in> set (parse_args rhs)" and "c \<in> set a"
  shows "\<not> py_isspace c"
proof -
  let ?j = "py_join '' '' (drop 1 (split_ws rhs))"
  from assms(1) have a: "a \<in> set (py_split '' '' (args_pattern_sub (slice_1_m1 ?j)))"
    by (auto simp: parse_args_def Let_def split: if_splits)
  from py_split_single [OF a] assms(2) have ns: "c \<noteq> CHR '' ''" by auto
  from py_split_subset [OF a assms(2)] have "c \<in> set ?j"
    by (auto dest!: set_args_pattern_sub set_slice_1_m1)
  from set_py_join [OF this] ns obtain w where "w \<in> set (drop 1 (split_ws rhs))" "c \<in> set w"
    by auto
  then have "w \<in> set (split_ws rhs)" by (auto dest: in_set_dropD)
  from split_ws_token [OF this \<open>c \<in> set w\<close>] show ?thesis .
qed

lemma py_join_Cons_Cons: "py_join sep ((c # p) # ps) = c # py_join sep (p # ps)"
  by (cases ps) simp_all

lemma py_join_py_split: "sep \<noteq> [] \<Longrightarrow> py_join sep (py_split sep s) = s"
proof (induction sep s rule: py_split.induct)
  case (1 sep)
  then show ?case by simp
next
  case (2 sep d ds)
  show ?case
  proof (cases "prefix sep (d # ds)")
    case True
    obtain v vs where v: "py_split sep (drop (length sep - 1) ds) = v # vs"
      using py_split_nonempty [of sep "drop (length sep - 1) ds"]
      by (cases "py_split sep (drop (length sep - 1) ds)") auto
    from "2.IH"(1) [OF True "2.prems"] v
    have j: "py_join sep (v # vs) = drop (length sep - 1) ds" by simp
    from True obtain r where r: "d # ds = sep @ r" by (auto simp: prefix_def)
    with "2.prems" have dr: "drop (length sep - 1) ds = r"
      by (cases sep) auto
    from True v have "py_split sep (d # ds) = [] # v # vs" by simp
    then have "py_join sep (py_split sep (d # ds)) = sep @ py_join sep (v # vs)" by simp
    with j dr r show ?thesis by simp
  next
    case False
    obtain v vs where v: "py_split sep ds = v # vs"
      using py_split_nonempty [of sep ds] by (cases "py_split sep ds") auto
    from "2.IH"(2) [OF False "2.prems"] v have "py_join sep (v # vs) = ds" by simp
    with False v show ?thesis by (simp add: py_join_Cons_Cons)
  qed
qed

lemma parse_args_source_order:
  "parse_args rhs = [] \<or>
   py_join '' '' (parse_args rhs)
     = args_pattern_sub (slice_1_m1 (py_join '' '' (drop 1 (split_ws rhs))))"
  by (simp add: parse_args_def Let_def py_join_py_split)

lemma parse_line_rhs:
  "parse_line line = Inr (Some st) \<Longrightarrow>
   \<exists>rhs. py_index (py_split (if py_in '' ::= '' line then '' ::= '' else '' -> '') line) 1
            = Inr rhs
         \<and> stmt_args st = parse_args rhs"
  by (auto simp: parse_line_def parse_construct_def parse_invoke_def bind_exc_def
      split: if_splits sum.splits)

lemma parse_lines_line:
  "parse_lines ft ls = Inr stmts \<Longrightarrow> st \<in> set stmts \<Longrightarrow>
   \<exists>line\<in>set ls. parse_line line = Inr (Some st)"
proof (induction ls arbitrary: stmts)
  case Nil
  then show ?case by simp
next
  case (Cons l ls)
  show ?case
  proof (cases "parse_line l")
    case (Inl e)
    with Cons.prems show ?thesis by (simp split: if_splits option.splits)
  next
    case (Inr o1)
    show ?thesis
    proof (cases o1)
      case None
      with Inr Cons show ?thesis by simp
    next
      case (Some s1)
      with Inr Cons.prems obtain sts where "parse_lines ft ls = Inr sts" "stmts = s1 # sts"
        by (auto split: sum.splits)
      with Cons.IH [of sts] Cons.prems(2) Inr Some show ?thesis by auto
    qed
  qed
qed

text \<open>
  Claim C8: every statement that the normalization produces has a non-empty
  \<open>var_name\<close> or receiver, and arguments that are comma-free raw text in source order.

  The scripts check neither names nor arguments: the name before the declaration
  marker and the receiver before the call marker can be empty, and an argument can hold
  a comma.
\<close>

theorem normalize_does_not_validate:
  "normalize ''a -  ::= b'' = Inr [Construct ''a'' [] ''b'' []]
   \<and> normalize '' -> go'' = Inr [Invoke [] ''go'' []]
   \<and> normalize ''m -> go (1,2)'' = Inr [Invoke ''m'' ''go'' [''1,2'']]"
  by code_simp

text \<open>
  Claim C8, amended: every statement that the normalization produces comes from a line
  of the text without comments, and its arguments have no whitespace and are in source
  order: with \<open>rhs\<close> the text of that line right of its marker, they are the pieces,
  split at the spaces, of the text between the outer parentheses of the argument
  suffix of \<open>rhs\<close> (of that text after \<open>__args_pattern\<close>), so that joined by single
  spaces they give that text back.
\<close>

theorem normalized_args_whitespace_free_in_order:
  assumes "normalize text = Inr stmts" and "st \<in> set stmts"
  shows "\<exists>line rhs. line \<in> set (code_lines text)
       \<and> parse_line line = Inr (Some st)
       \<and> py_index (py_split (if py_in '' ::= '' line then '' ::= '' else '' -> '') line) 1
           = Inr rhs
       \<and> stmt_args st = parse_args rhs
       \<and> list_all (\<lambda>a. \<not> list_ex py_isspace a) (stmt_args st)
       \<and> (stmt_args st = [] \<or>
          py_join '' '' (stmt_args st)
            = args_pattern_sub (slice_1_m1 (py_join '' '' (drop 1 (split_ws rhs)))))"
proof -
  from assms obtain line where l: "line \<in> set (code_lines text)"
    and p: "parse_line line = Inr (Some st)"
    unfolding normalize_def by (blast dest: parse_lines_line)
  from parse_line_rhs [OF p] obtain rhs where
    i: "py_index (py_split (if py_in '' ::= '' line then '' ::= '' else '' -> '') line) 1
          = Inr rhs"
    and r: "stmt_args st = parse_args rhs"
    by blast
  have w: "list_all (\<lambda>a. \<not> list_ex py_isspace a) (parse_args rhs)"
    using parse_args_no_space [of _ rhs] by (auto simp: list_all_iff list_ex_iff)
  from parse_args_source_order [of rhs] r
  have o: "stmt_args st = [] \<or>
      py_join '' '' (stmt_args st)
        = args_pattern_sub (slice_1_m1 (py_join '' '' (drop 1 (split_ws rhs))))"
    by simp
  from l p i r w o show ?thesis by (intro exI [of _ line] exI [of _ rhs]) simp
qed

theorem normalized_args_whitespace_free_in_order_witness:
  "normalize (''// calls'' @ [LF] @ ''m -> go (x  y z) // three'')
     = Inr [Invoke ''m'' ''go'' [''x'', ''y'', ''z'']]
   \<and> code_lines (''// calls'' @ [LF] @ ''m -> go (x  y z) // three'') = [''m -> go (x  y z) '']
   \<and> py_index (py_split '' -> '' ''m -> go (x  y z) '') 1 = Inr ''go (x  y z) ''
   \<and> py_join '' '' (drop 1 (split_ws ''go (x  y z) '')) = ''(x y z)''
   \<and> (\<exists>line rhs. line \<in> set (code_lines (''// calls'' @ [LF] @ ''m -> go (x  y z) // three''))
       \<and> parse_line line = Inr (Some (Invoke ''m'' ''go'' [''x'', ''y'', ''z'']))
       \<and> py_index (py_split (if py_in '' ::= '' line then '' ::= '' else '' -> '') line) 1
           = Inr rhs
       \<and> stmt_args (Invoke ''m'' ''go'' [''x'', ''y'', ''z'']) = parse_args rhs
       \<and> list_all (\<lambda>a. \<not> list_ex py_isspace a)
            (stmt_args (Invoke ''m'' ''go'' [''x'', ''y'', ''z'']))
       \<and> (stmt_args (Invoke ''m'' ''go'' [''x'', ''y'', ''z'']) = [] \<or>
          py_join '' '' (stmt_args (Invoke ''m'' ''go'' [''x'', ''y'', ''z'']))
            = args_pattern_sub (slice_1_m1 (py_join '' '' (drop 1 (split_ws rhs))))))"
proof -
  have n: "normalize (''// calls'' @ [LF] @ ''m -> go (x  y z) // three'')
      = Inr [Invoke ''m'' ''go'' [''x'', ''y'', ''z'']]"
    by code_simp
  have m: "Invoke ''m'' ''go'' [''x'', ''y'', ''z''] \<in> set [Invoke ''m'' ''go'' [''x'', ''y'', ''z'']]"
    by simp
  have c: "code_lines (''// calls'' @ [LF] @ ''m -> go (x  y z) // three'') = [''m -> go (x  y z) '']"
    by code_simp
  have r: "py_index (py_split '' -> '' ''m -> go (x  y z) '') 1 = Inr ''go (x  y z) ''"
    by code_simp
  have j: "py_join '' '' (drop 1 (split_ws ''go (x  y z) '')) = ''(x y z)''"
    by code_simp
  from n c r j normalized_args_whitespace_free_in_order [OF n m] show ?thesis by (intro conjI)
qed


section \<open>Reading the intermediate text back\<close>

subsection \<open>Splitting at whitespace\<close>

lemma split_ws_word:
  "w \<noteq> [] \<Longrightarrow> \<forall>c\<in>set w. \<not> py_isspace c \<Longrightarrow> py_isspace sp
    \<Longrightarrow> split_ws (w @ sp # rest) = w # split_ws rest"
proof (induction w rule: list_nonempty_induct)
  case (single c)
  then show ?case by simp
next
  case (cons c cs)
  then obtain d ds where cs: "cs = d # ds" by (cases cs) auto
  from cons.prems have nc: "\<not> py_isspace c" and nd: "\<forall>c\<in>set cs. \<not> py_isspace c" by simp_all
  from cons.IH [OF nd cons.prems(2)] have ih: "split_ws (cs @ sp # rest) = cs # split_ws rest" .
  from nd cs have "\<not> py_isspace d" by simp
  with nc cs ih show ?case by simp
qed

lemma split_ws_token_Cons:
  "is_token w \<Longrightarrow> py_isspace sp \<Longrightarrow> split_ws (w @ sp # rest) = w # split_ws rest"
  by (rule split_ws_word) (simp_all add: is_token_def list_ex_iff)

lemma py_join_Cons_char: "py_join sep ((c # w) # ws) = c # py_join sep (w # ws)"
  by (cases ws) simp_all

lemma split_ws_join:
  "s \<noteq> [] \<Longrightarrow> hd s \<noteq> CHR '' '' \<Longrightarrow> last s \<noteq> CHR '' ''
    \<Longrightarrow> \<forall>c\<in>set s. py_isspace c \<longrightarrow> c = CHR '' '' \<Longrightarrow> \<not> py_in ''  '' s
    \<Longrightarrow> py_join '' '' (split_ws (s @ [LF])) = s"
proof (induction s rule: length_induct)
  case (1 s)
  from "1.prems" obtain c cs where s: "s = c # cs" by (cases s) auto
  with "1.prems" have nc: "\<not> py_isspace c" by auto
  have lf: "py_isspace LF" by (simp add: py_isspace_def)
  show ?case
  proof (cases cs)
    case Nil
    with s nc lf show ?thesis by simp
  next
    case (Cons d ds)
    show ?thesis
    proof (cases "py_isspace d")
      case True
      with "1.prems"(4) s Cons have d: "d = CHR '' ''" by simp
      from "1.prems"(3) s Cons d have ne: "ds \<noteq> []" by auto
      from "1.prems"(5) s Cons d ne have hd: "hd ds \<noteq> CHR '' ''" by (cases ds) auto
      from "1.prems"(3) s Cons ne have la: "last ds \<noteq> CHR '' ''" by simp
      from "1.prems"(4) s Cons have ws: "\<forall>c\<in>set ds. py_isspace c \<longrightarrow> c = CHR '' ''" by simp
      from "1.prems"(5) s Cons have nn: "\<not> py_in ''  '' ds" by simp
      have "length ds < length s" using s Cons by simp
      with "1.IH" ne hd la ws nn have ih: "py_join '' '' (split_ws (ds @ [LF])) = ds" by blast
      with ne obtain v vs where v: "split_ws (ds @ [LF]) = v # vs"
        by (cases "split_ws (ds @ [LF])") auto
      from nc True s Cons have "split_ws (s @ [LF]) = [c] # split_ws (ds @ [LF])" by simp
      with v ih s Cons d show ?thesis by simp
    next
      case False
      have ne: "cs \<noteq> []" using Cons by simp
      from False Cons "1.prems"(4) s have hd: "hd cs \<noteq> CHR '' ''"
        by (auto simp: py_isspace_def)
      from "1.prems"(3) s ne have la: "last cs \<noteq> CHR '' ''" by simp
      from "1.prems"(4) s have ws: "\<forall>c\<in>set cs. py_isspace c \<longrightarrow> c = CHR '' ''" by simp
      from "1.prems"(5) s have nn: "\<not> py_in ''  '' cs" by simp
      have "length cs < length s" using s by simp
      with "1.IH" ne hd la ws nn have ih: "py_join '' '' (split_ws (cs @ [LF])) = cs" by blast
      with ne obtain v vs where v: "split_ws (cs @ [LF]) = v # vs"
        by (cases "split_ws (cs @ [LF])") auto
      from nc False s Cons v have "split_ws (s @ [LF]) = (c # v) # vs" by simp
      with v ih s show ?thesis by (simp add: py_join_Cons_char)
    qed
  qed
qed


subsection \<open>What \<open>repr\<close> writes\<close>

lemma printable_space: "py_isprintable c \<Longrightarrow> py_isspace c \<Longrightarrow> c = CHR '' ''"
  by (auto simp: py_isprintable_def py_isspace_def)

lemma hex_digit_cases:
  "n < 16 \<Longrightarrow> hex_digit n \<in> set ''0123456789abcdef''"
  unfolding hex_digit_def by (rule nth_mem) simp

lemma hex_digit_not_space: "n < 16 \<Longrightarrow> \<not> py_isspace (hex_digit n)"
  using hex_digit_cases [of n] by (auto simp: py_isspace_def)

lemma hex_val_hex_digit: "n < 16 \<Longrightarrow> hex_val (hex_digit n) = Some n"
proof -
  assume n: "n < 16"
  have "\<forall>k\<in>set [0..<16]. hex_val (hex_digit k) = Some k" by code_simp
  with n show ?thesis by simp
qed

lemma of_char_div_16: "(of_char (c :: char) :: nat) div 16 < 16"
  by (rule less_mult_imp_div_less) simp

lemma repr_char_space:
  "\<not> py_isspace q \<Longrightarrow> d \<in> set (repr_char q c) \<Longrightarrow> py_isspace d
    \<Longrightarrow> d = CHR '' '' \<and> c = CHR '' '' \<and> repr_char q c = '' ''"
proof -
  assume q: "\<not> py_isspace q" and d: "d \<in> set (repr_char q c)" and sp: "py_isspace d"
  have b: "\<not> py_isspace bsl" "\<not> py_isspace CHR ''t''" "\<not> py_isspace CHR ''n''"
    "\<not> py_isspace CHR ''r''" "\<not> py_isspace CHR ''x''"
    by (simp_all add: py_isspace_def)
  have h: "\<not> py_isspace (hex_digit (of_char c div 16))" "\<not> py_isspace (hex_digit (of_char c mod 16))"
    by (simp_all add: hex_digit_not_space of_char_div_16)
  from d sp q b h have p: "py_isprintable c" and dc: "d = c" and r: "repr_char q c = [c]"
    by (auto simp: repr_char_def split: if_splits)
  from printable_space [OF p] sp dc have "c = CHR '' ''" by simp
  with dc r show ?thesis by simp
qed

lemma repr_char_nonempty: "repr_char q c \<noteq> []"
  by (simp add: repr_char_def)



subsection \<open>Texts with single spaces\<close>

lemma single_spaced_join:
  "single_spaced s \<Longrightarrow> py_join '' '' (split_ws (s @ [LF])) = s"
  unfolding single_spaced_def by (rule split_ws_join) (simp_all add: list_all_iff)

lemma no_space_no_dbl: "CHR '' '' \<notin> set s \<Longrightarrow> \<not> py_in ''  '' s"
  by (induction s) auto

lemma no_dbl_append:
  "\<not> py_in ''  '' a \<Longrightarrow> \<not> py_in ''  '' b
    \<Longrightarrow> a = [] \<or> last a \<noteq> CHR '' '' \<or> b = [] \<or> hd b \<noteq> CHR '' ''
    \<Longrightarrow> \<not> py_in ''  '' (a @ b)"
proof (induction a)
  case Nil
  then show ?case by simp
next
  case (Cons c a)
  from Cons.prems(1) have na: "\<not> py_in ''  '' a" and np: "\<not> prefix ''  '' (c # a)" by simp_all
  from Cons.prems(3) have "a = [] \<or> last a \<noteq> CHR '' '' \<or> b = [] \<or> hd b \<noteq> CHR '' ''"
    by (cases a) auto
  from Cons.IH [OF na Cons.prems(2) this] have ih: "\<not> py_in ''  '' (a @ b)" .
  have "\<not> prefix ''  '' (c # a @ b)"
  proof (cases a)
    case Nil
    with Cons.prems(3) show ?thesis by (cases b) auto
  next
    case (Cons d ds)
    with np show ?thesis by simp
  qed
  with ih show ?case by simp
qed

lemma single_spaced_append:
  "single_spaced a \<Longrightarrow> single_spaced b \<Longrightarrow> single_spaced (a @ b)"
  unfolding single_spaced_def by (simp add: no_dbl_append)

lemma single_spaced_space:
  assumes "single_spaced a" and "single_spaced b"
  shows "single_spaced (a @ CHR '' '' # b)"
proof -
  from assms(2) have "\<not> py_in ''  '' (CHR '' '' # b)"
    unfolding single_spaced_def by (cases b) auto
  with assms(1) have "\<not> py_in ''  '' (a @ CHR '' '' # b)"
    unfolding single_spaced_def by (intro no_dbl_append) simp_all
  with assms show ?thesis unfolding single_spaced_def by simp
qed

lemma single_spaced_token: "is_token w \<Longrightarrow> single_spaced w"
proof -
  assume w: "is_token w"
  then have ne: "w \<noteq> []" and ns: "\<forall>c\<in>set w. \<not> py_isspace c"
    by (simp_all add: is_token_def list_ex_iff)
  have sp: "py_isspace CHR '' ''" by (simp add: py_isspace_def)
  with ns have n: "CHR '' '' \<notin> set w" by blast
  with ne have "hd w \<noteq> CHR '' ''" "last w \<noteq> CHR '' ''"
    by (metis hd_in_set, metis last_in_set)
  with ne ns n show ?thesis
    by (simp add: single_spaced_def no_space_no_dbl list_all_iff)
qed


lemma repr_char_no_dbl: "\<not> py_isspace q \<Longrightarrow> \<not> py_in ''  '' (repr_char q c)"
proof (cases "CHR '' '' \<in> set (repr_char q c)")
  case True
  assume "\<not> py_isspace q"
  have "py_isspace CHR '' ''" by (simp add: py_isspace_def)
  from repr_char_space [OF \<open>\<not> py_isspace q\<close> True this] have "repr_char q c = '' ''" by blast
  then show ?thesis by simp
next
  case False
  then show ?thesis by (rule no_space_no_dbl)
qed

lemma repr_body_ws:
  "\<not> py_isspace q \<Longrightarrow> d \<in> set (concat (map (repr_char q) a)) \<Longrightarrow> py_isspace d
    \<Longrightarrow> d = CHR '' '' \<and> CHR '' '' \<in> set a"
  by (auto dest: repr_char_space)

lemma repr_body_no_dbl:
  "\<not> py_isspace q \<Longrightarrow> \<not> py_in ''  '' a
    \<Longrightarrow> \<not> py_in ''  '' (concat (map (repr_char q) a))
      \<and> (concat (map (repr_char q) a) \<noteq> [] \<and> hd (concat (map (repr_char q) a)) = CHR '' ''
          \<longrightarrow> a \<noteq> [] \<and> hd a = CHR '' '')"
proof (induction a)
  case Nil
  then show ?case by simp
next
  case (Cons c a)
  let ?B = "concat (map (repr_char q) a)"
  have sp: "py_isspace CHR '' ''" by (simp add: py_isspace_def)
  from Cons.prems(2) have na: "\<not> py_in ''  '' a" by simp
  from Cons.IH [OF Cons.prems(1) na]
  have ih1: "\<not> py_in ''  '' ?B" and ih2: "?B \<noteq> [] \<and> hd ?B = CHR '' '' \<longrightarrow> a \<noteq> [] \<and> hd a = CHR '' ''"
    by simp_all
  have ne: "repr_char q c \<noteq> []" by (rule repr_char_nonempty)
  have bd: "last (repr_char q c) \<noteq> CHR '' '' \<or> ?B = [] \<or> hd ?B \<noteq> CHR '' ''"
  proof (rule ccontr)
    assume "\<not> ?thesis"
    then have l: "last (repr_char q c) = CHR '' ''" and b: "?B \<noteq> []" "hd ?B = CHR '' ''"
      by simp_all
    from ne have "last (repr_char q c) \<in> set (repr_char q c)" by (rule last_in_set)
    with l have "CHR '' '' \<in> set (repr_char q c)" by simp
    from repr_char_space [OF Cons.prems(1) this sp] have c: "c = CHR '' ''" by simp
    from ih2 b obtain d ds where "a = d # ds" "d = CHR '' ''" by (cases a) auto
    with c Cons.prems(2) show False by simp
  qed
  have "\<not> py_in ''  '' (repr_char q c @ ?B)"
    using repr_char_no_dbl [OF Cons.prems(1)] ih1 bd by (intro no_dbl_append) simp_all
  moreover have "hd (repr_char q c @ ?B) = CHR '' '' \<longrightarrow> c = CHR '' ''"
  proof
    assume "hd (repr_char q c @ ?B) = CHR '' ''"
    with ne have "hd (repr_char q c) = CHR '' ''" by simp
    moreover from ne have "hd (repr_char q c) \<in> set (repr_char q c)" by (rule hd_in_set)
    ultimately have "CHR '' '' \<in> set (repr_char q c)" by simp
    from repr_char_space [OF Cons.prems(1) this sp] show "c = CHR '' ''" by simp
  qed
  ultimately show ?case by simp
qed

lemma repr_str_spaced: "\<not> py_in ''  '' a \<Longrightarrow> single_spaced (py_repr_str a)"
proof -
  assume a: "\<not> py_in ''  '' a"
  define q where "q = (if sq \<in> set a \<and> dq \<notin> set a then dq else sq)"
  let ?B = "concat (map (repr_char q) a)"
  have r: "py_repr_str a = q # ?B @ [q]" by (simp add: py_repr_str_def q_def Let_def)
  have q: "\<not> py_isspace q" "q \<noteq> CHR '' ''" by (auto simp: q_def py_isspace_def)
  from repr_body_no_dbl [OF q(1) a] have b: "\<not> py_in ''  '' ?B" by simp
  have "\<not> py_in ''  '' ([q] @ ?B @ [q])"
    using q b by (intro no_dbl_append) simp_all
  moreover have "\<forall>c\<in>set ?B. py_isspace c \<longrightarrow> c = CHR '' ''"
    using repr_body_ws [OF q(1)] by blast
  ultimately show ?thesis using q unfolding r single_spaced_def
    by (simp add: list_all_iff)
qed

lemma repr_str_token: "CHR '' '' \<notin> set a \<Longrightarrow> is_token (py_repr_str a)"
proof -
  assume a: "CHR '' '' \<notin> set a"
  define q where "q = (if sq \<in> set a \<and> dq \<notin> set a then dq else sq)"
  let ?B = "concat (map (repr_char q) a)"
  have r: "py_repr_str a = q # ?B @ [q]" by (simp add: py_repr_str_def q_def Let_def)
  have q: "\<not> py_isspace q" by (auto simp: q_def py_isspace_def)
  have "\<forall>c\<in>set ?B. \<not> py_isspace c"
    using repr_body_ws [OF q] a by blast
  with q show ?thesis unfolding r is_token_def by (simp add: list_ex_iff)
qed


lemma py_join_map_Cons:
  "py_join sep (map f (x # ys)) = f x @ concat (map (\<lambda>y. sep @ f y) ys)"
  by (induction ys arbitrary: x) simp_all

lemma single_spaced_comma: "single_spaced '',''"
  by (simp add: single_spaced_def py_isspace_def)

lemma repr_items_spaced:
  "\<not> py_in ''  '' x \<Longrightarrow> list_all (\<lambda>a. \<not> py_in ''  '' a) ys
    \<Longrightarrow> single_spaced (py_repr_str x @ concat (map (\<lambda>y. '', '' @ py_repr_str y) ys))"
proof (induction ys arbitrary: x)
  case Nil
  then show ?case by (simp add: repr_str_spaced)
next
  case (Cons y ys)
  from Cons.prems have y: "\<not> py_in ''  '' y" and ys: "list_all (\<lambda>a. \<not> py_in ''  '' a) ys"
    by simp_all
  have "single_spaced (py_repr_str x @ '','')"
    using Cons.prems(1) by (intro single_spaced_append repr_str_spaced single_spaced_comma)
  from single_spaced_space [OF this Cons.IH [OF y ys]] show ?case by simp
qed

lemma repr_list_spaced:
  "list_all (\<lambda>a. \<not> py_in ''  '' a) xs \<Longrightarrow> single_spaced (py_repr_list xs)"
proof (cases xs)
  case Nil
  then show ?thesis by (simp add: py_repr_list_def single_spaced_def py_isspace_def)
next
  case (Cons x ys)
  assume "list_all (\<lambda>a. \<not> py_in ''  '' a) xs"
  with Cons have "\<not> py_in ''  '' x" "list_all (\<lambda>a. \<not> py_in ''  '' a) ys" by simp_all
  from repr_items_spaced [OF this]
  have j: "single_spaced (py_join '', '' (map py_repr_str xs))"
    unfolding Cons py_join_map_Cons .
  have b: "single_spaced ''[''" "single_spaced '']''"
    by (simp_all add: single_spaced_def py_isspace_def)
  from single_spaced_append [OF b(1) single_spaced_append [OF j b(2)]]
  show ?thesis by (simp add: py_repr_list_def)
qed

lemma repr_list_Nil: "py_repr_list [] = ''[]''"
  by (simp add: py_repr_list_def)

lemma repr_list_single: "py_repr_list [a] = ''['' @ py_repr_str a @ '']''"
  by (simp add: py_repr_list_def)

lemma repr_list_token:
  "(case xs of [] \<Rightarrow> True | [a] \<Rightarrow> CHR '' '' \<notin> set a | _ \<Rightarrow> False)
    \<Longrightarrow> is_token (py_repr_list xs)"
proof -
  assume h: "case xs of [] \<Rightarrow> True | [a] \<Rightarrow> CHR '' '' \<notin> set a | _ \<Rightarrow> False"
  show ?thesis
  proof (cases xs)
    case Nil
    then show ?thesis by (simp add: repr_list_Nil is_token_def py_isspace_def)
  next
    case (Cons a ys)
    with h have ys: "ys = []" and a: "CHR '' '' \<notin> set a" by (cases ys; simp)+
    from repr_str_token [OF a] show ?thesis
      unfolding Cons ys repr_list_single is_token_def
      by (simp add: list_ex_iff py_isspace_def)
  qed
qed

subsection \<open>Evaluating what \<open>repr\<close> wrote\<close>

lemma hex_round_trip:
  "char_of (16 * (of_char (c :: char) div 16) + of_char c mod 16 :: nat) = c"
  by simp

lemma literal_body_repr:
  "q = sq \<or> q = dq
    \<Longrightarrow> literal_body q (concat (map (repr_char q) s) @ q # rest) = Some (s, rest)"
proof (induction s)
  case Nil
  then show ?case by simp
next
  case (Cons c s)
  let ?t = "concat (map (repr_char q) s) @ q # rest"
  from Cons.IH [OF Cons.prems] have ih: "literal_body q ?t = Some (s, rest)" .
  have qb: "q \<noteq> bsl" using Cons.prems by auto
  consider "c = q \<or> c = bsl" | "c \<noteq> q" "c \<noteq> bsl" "c = TAB" | "c \<noteq> q" "c \<noteq> bsl" "c = LF"
    | "c \<noteq> q" "c \<noteq> bsl" "c = CR"
    | "c \<noteq> q" "c \<noteq> bsl" "c \<noteq> TAB" "c \<noteq> LF" "c \<noteq> CR" "\<not> py_isprintable c"
    | "c \<noteq> q" "c \<noteq> bsl" "c \<noteq> TAB" "c \<noteq> LF" "c \<noteq> CR" "py_isprintable c"
    by blast
  then show ?case
  proof cases
    case 1
    then have "repr_char q c = [bsl, c]" by (simp add: repr_char_def)
    with 1 qb ih Cons.prems show ?thesis by (auto simp: cons_fst_def)
  next
    case 2
    then have "repr_char q c = [bsl, CHR ''t'']" by (simp add: repr_char_def)
    with 2 qb ih show ?thesis by (simp add: cons_fst_def)
  next
    case 3
    then have "repr_char q c = [bsl, CHR ''n'']" by (simp add: repr_char_def)
    with 3 qb ih show ?thesis by (simp add: cons_fst_def)
  next
    case 4
    then have "repr_char q c = [bsl, CHR ''r'']" by (simp add: repr_char_def)
    with 4 qb ih show ?thesis by (simp add: cons_fst_def)
  next
    case 5
    then have r: "repr_char q c
        = [bsl, CHR ''x'', hex_digit (of_char c div 16), hex_digit (of_char c mod 16)]"
      by (simp add: repr_char_def)
    have h: "hex_val (hex_digit (of_char c div 16)) = Some (of_char c div 16)"
      "hex_val (hex_digit (of_char c mod 16)) = Some (of_char c mod 16)"
      by (simp_all add: hex_val_hex_digit of_char_div_16)
    have "literal_body q (repr_char q c @ ?t)
        = cons_fst (char_of (16 * (of_char c div 16) + of_char c mod 16 :: nat)) (literal_body q ?t)"
      unfolding r using qb h by simp
    also have "\<dots> = Some (c # s, rest)"
      unfolding hex_round_trip ih by (simp add: cons_fst_def)
    finally show ?thesis by simp
  next
    case 6
    then have "repr_char q c = [c]" by (simp add: repr_char_def)
    with 6 ih show ?thesis by (simp add: cons_fst_def)
  qed
qed

lemma string_literal_repr: "string_literal (py_repr_str s @ rest) = Some (s, rest)"
proof -
  define q where "q = (if sq \<in> set s \<and> dq \<notin> set s then dq else sq)"
  have r: "py_repr_str s = q # concat (map (repr_char q) s) @ [q]"
    by (simp add: py_repr_str_def q_def Let_def)
  have q: "q = sq \<or> q = dq" by (simp add: q_def)
  from literal_body_repr [OF q, of s rest] q show ?thesis
    unfolding r string_literal_def by auto
qed

lemma repr_str_hd: "\<exists>t. py_repr_str s = sq # t \<or> py_repr_str s = dq # t"
  by (simp add: py_repr_str_def Let_def)

lemma literal_items_repr:
  "literal_items (concat (map (\<lambda>y. CHR '','' # CHR '' '' # py_repr_str y) ys) @ '']'') = Some ys"
proof (induction ys)
  case Nil
  then show ?case by simp
next
  case (Cons y ys)
  let ?rest = "concat (map (\<lambda>y. '', '' @ py_repr_str y) ys) @ '']''"
  have "literal_items ('', '' @ py_repr_str y @ ?rest)
      = (case string_literal (py_repr_str y @ ?rest) of
           None \<Rightarrow> None
         | Some (x, rest') \<Rightarrow> map_option ((#) x) (literal_items rest'))"
    by (subst literal_items.simps) simp
  with Cons.IH show ?case by (simp add: string_literal_repr)
qed

lemma literal_list_bracket:
  "t \<noteq> '']'' \<Longrightarrow> literal_list (CHR ''['' # t)
     = (case string_literal t of
          None \<Rightarrow> None
        | Some (x, rest) \<Rightarrow> map_option ((#) x) (literal_items rest))"
  by (simp add: literal_list_def del: literal_items.simps)

lemma literal_list_repr: "literal_list (py_repr_list xs) = Some xs"
proof (cases xs)
  case Nil
  then show ?thesis by (simp add: py_repr_list_def literal_list_def)
next
  case (Cons x ys)
  let ?rest = "concat (map (\<lambda>y. '', '' @ py_repr_str y) ys) @ '']''"
  have r: "py_repr_list xs = CHR ''['' # py_repr_str x @ ?rest"
    unfolding Cons py_repr_list_def py_join_map_Cons by simp
  from repr_str_hd [of x] have "py_repr_str x @ ?rest \<noteq> '']''" by auto
  from literal_list_bracket [OF this] show ?thesis
    unfolding r string_literal_repr using Cons
    by (simp add: literal_items_repr del: literal_items.simps)
qed


subsection \<open>A line of the intermediate file\<close>

lemma py_eval_list_repr: "py_eval_list interp (py_repr_list xs) = Inr xs"
  by (simp add: py_eval_list_def literal_list_repr)

lemma space_isspace: "py_isspace CHR '' ''" "py_isspace LF"
  by (simp_all add: py_isspace_def)

lemma split_ws_var_line:
  assumes "is_token var_type" and "is_token var_name" and "is_token class_name"
  shows "split_ws (''var '' @ var_type @ '' '' @ var_name @ '' '' @ class_name @ '' '' @ t)
    = ''var'' # var_type # var_name # class_name # split_ws t"
proof -
  have v: "is_token ''var''" by (simp add: is_token_def py_isspace_def)
  have "''var '' @ var_type @ '' '' @ var_name @ '' '' @ class_name @ '' '' @ t
      = ''var'' @ CHR '' '' # (var_type @ CHR '' '' # (var_name @ CHR '' '' # (class_name @ CHR '' '' # t)))"
    by simp
  then show ?thesis
    by (simp only: split_ws_token_Cons [OF v space_isspace(1)]
        split_ws_token_Cons [OF assms(1) space_isspace(1)]
        split_ws_token_Cons [OF assms(2) space_isspace(1)]
        split_ws_token_Cons [OF assms(3) space_isspace(1)])
qed

lemma split_ws_method_line:
  assumes "is_token var_name" and "is_token method_name"
  shows "split_ws (''method '' @ var_name @ '' '' @ method_name @ '' '' @ t)
    = ''method'' # var_name # method_name # split_ws t"
proof -
  have v: "is_token ''method''" by (simp add: is_token_def py_isspace_def)
  have "''method '' @ var_name @ '' '' @ method_name @ '' '' @ t
      = ''method'' @ CHR '' '' # (var_name @ CHR '' '' # (method_name @ CHR '' '' # t))"
    by simp
  then show ?thesis
    by (simp only: split_ws_token_Cons [OF v space_isspace(1)]
        split_ws_token_Cons [OF assms(1) space_isspace(1)]
        split_ws_token_Cons [OF assms(2) space_isspace(1)])
qed

lemma read_line_serialize:
  "plain_statement st \<Longrightarrow> read_line interp (serialize st) = Inr (Some st)"
proof (cases st)
  case (Construct var_type var_name class_name args)
  assume "plain_statement st"
  with Construct have t: "is_token var_type" "is_token var_name" "is_token class_name"
    and a: "list_all (\<lambda>a. \<not> py_in ''  '' a) args"
    by simp_all
  let ?ws = "split_ws (py_repr_list args @ [LF])"
  have sp: "split_ws (serialize st) = ''var'' # var_type # var_name # class_name # ?ws"
    unfolding Construct serialize.simps by (rule split_ws_var_line [OF t])
  have j: "py_join '' '' ?ws = py_repr_list args"
    by (rule single_spaced_join [OF repr_list_spaced [OF a]])
  show ?thesis
    unfolding read_line_def sp
    by (simp add: py_index_def bind_exc_def j py_eval_list_repr Construct)
next
  case (Invoke var_name method_name args)
  assume "plain_statement st"
  with Invoke have t: "is_token var_name" "is_token method_name"
    and a: "case args of [] \<Rightarrow> True | [a] \<Rightarrow> CHR '' '' \<notin> set a | _ \<Rightarrow> False"
    by simp_all
  have "split_ws (py_repr_list args @ LF # []) = py_repr_list args # split_ws []"
    by (rule split_ws_token_Cons [OF repr_list_token [OF a] space_isspace(2)])
  then have ws: "split_ws (py_repr_list args @ [LF]) = [py_repr_list args]" by simp
  have sp: "split_ws (serialize st) = [''method'', var_name, method_name, py_repr_list args]"
    unfolding Invoke serialize.simps split_ws_method_line [OF t] ws ..
  show ?thesis
    unfolding read_line_def sp
    by (simp add: py_index_def bind_exc_def py_eval_list_repr Invoke)
qed


subsection \<open>The lines of the intermediate file\<close>

lemma single_spaced_no_newline: "single_spaced s \<Longrightarrow> LF \<notin> set s \<and> CR \<notin> set s"
  by (auto simp: single_spaced_def list_all_iff py_isspace_def)

lemma serialize_body:
  "plain_statement st \<Longrightarrow> \<exists>b. serialize st = b @ [LF] \<and> single_spaced b"
proof (cases st)
  case (Construct var_type var_name class_name args)
  assume "plain_statement st"
  with Construct have t: "is_token var_type" "is_token var_name" "is_token class_name"
    and a: "list_all (\<lambda>a. \<not> py_in ''  '' a) args"
    by simp_all
  have v: "single_spaced ''var''" by (simp add: single_spaced_def py_isspace_def)
  note s = single_spaced_space
  from s [OF v s [OF single_spaced_token [OF t(1)] s [OF single_spaced_token [OF t(2)]
    s [OF single_spaced_token [OF t(3)] repr_list_spaced [OF a]]]]]
  have "single_spaced (''var '' @ var_type @ '' '' @ var_name @ '' '' @ class_name @ '' ''
      @ py_repr_list args)"
    by simp
  then show ?thesis unfolding Construct by (intro exI [of _ "''var '' @ var_type @ '' '' @ var_name @ '' '' @ class_name @ '' ''
      @ py_repr_list args"]) simp
next
  case (Invoke var_name method_name args)
  assume "plain_statement st"
  with Invoke have t: "is_token var_name" "is_token method_name"
    and a: "case args of [] \<Rightarrow> True | [a] \<Rightarrow> CHR '' '' \<notin> set a | _ \<Rightarrow> False"
    by simp_all
  have v: "single_spaced ''method''" by (simp add: single_spaced_def py_isspace_def)
  note s = single_spaced_space
  from s [OF v s [OF single_spaced_token [OF t(1)] s [OF single_spaced_token [OF t(2)]
    single_spaced_token [OF repr_list_token [OF a]]]]]
  have "single_spaced (''method '' @ var_name @ '' '' @ method_name @ '' '' @ py_repr_list args)"
    by simp
  then show ?thesis unfolding Invoke
    by (intro exI [of _ "''method '' @ var_name @ '' '' @ method_name @ '' '' @ py_repr_list args"]) simp
qed

lemma universal_newlines_id: "CR \<notin> set s \<Longrightarrow> universal_newlines s = s"
  by (induction s rule: universal_newlines.induct) auto

lemma py_readlines_line:
  "LF \<notin> set b \<Longrightarrow> py_readlines (b @ LF # rest) = (b @ [LF]) # py_readlines rest"
  by (induction b) auto

lemma intermediate_text_Cons:
  "intermediate_text (st # S) = serialize st @ intermediate_text S"
  by (simp add: intermediate_text_def)

lemma intermediate_text_lines:
  "list_all plain_statement S
    \<Longrightarrow> py_readlines (universal_newlines (intermediate_text S)) = map serialize S"
proof -
  assume S: "list_all plain_statement S"
  then have "CR \<notin> set (intermediate_text S) \<and> py_readlines (intermediate_text S) = map serialize S"
  proof (induction S)
    case Nil
    then show ?case by (simp add: intermediate_text_def)
  next
    case (Cons st S)
    from Cons.prems have "plain_statement st" and "list_all plain_statement S" by simp_all
    from serialize_body [OF this(1)] obtain b where b: "serialize st = b @ [LF]" "single_spaced b"
      by blast
    from single_spaced_no_newline [OF b(2)] have n: "LF \<notin> set b" "CR \<notin> set b" by simp_all
    from Cons.IH [OF \<open>list_all plain_statement S\<close>]
    have ih: "CR \<notin> set (intermediate_text S)" "py_readlines (intermediate_text S) = map serialize S"
      by simp_all
    from n ih show ?case
      by (simp add: intermediate_text_Cons b(1) py_readlines_line)
  qed
  then show ?thesis by (simp add: universal_newlines_id)
qed

lemma read_lines_serialize:
  "list_all plain_statement S \<Longrightarrow> read_lines interp (map serialize S) = Inr S"
  by (induction S) (simp_all add: read_line_serialize)

text \<open>
  Claim C4: for every statement sequence S, reading the intermediate text of S back
  gives a sequence equal to S.

  Not for every sequence. The fields of a line are separated by spaces and found again
  by \<open>line.split()\<close>, so a name with whitespace is read as several fields: the call
  \<^verbatim>\<open>m -> go [] (1)\<close> is normalized to a call of \<^verbatim>\<open>go []\<close> with two arguments and
  read back as a call of \<^verbatim>\<open>go\<close> with none. Line 51 joins the pieces of the argument
  text with single spaces, so two adjacent spaces inside an argument come back as one.
\<close>

theorem intermediate_text_round_trip_fails:
  "normalize ''m -> go [] (1)'' = Inr [Invoke ''m'' ''go []'' ['']'', ''(1'']]
   \<and> read_statements (\<lambda>src. None) (intermediate_text [Invoke ''m'' ''go []'' ['']'', ''(1'']])
     = Inr [Invoke ''m'' ''go'' []]
   \<and> read_statements (\<lambda>src. None) (intermediate_text [Construct ''T'' ''x'' ''C'' [''a  b'']])
     = Inr [Construct ''T'' ''x'' ''C'' [''a b'']]"
  by code_simp

text \<open>
  Claim C4, amended: for every sequence S of statements whose names are non-empty and
  without whitespace, whose declarations have arguments without two adjacent spaces and
  whose calls have no argument or one argument without a space, reading the
  intermediate text of S back gives S, whatever the interpreter does on other texts.
  (Line 62 evaluates only the fourth field of a call line, where line 51 joins all the
  fields from the fifth on; calls with other argument lists are left out here.)
\<close>

theorem intermediate_text_round_trip:
  "list_all plain_statement S \<Longrightarrow> read_statements interp (intermediate_text S) = Inr S"
  unfolding read_statements_def by (simp add: intermediate_text_lines read_lines_serialize)

theorem intermediate_text_round_trip_witness:
  "list_all plain_statement [Construct ''T'' ''m'' ''C'' [''1'', ''2''], Invoke ''m'' ''go'' [[]]]
   \<and> read_statements (\<lambda>src. None)
       (intermediate_text [Construct ''T'' ''m'' ''C'' [''1'', ''2''], Invoke ''m'' ''go'' [[]]])
     = Inr [Construct ''T'' ''m'' ''C'' [''1'', ''2''], Invoke ''m'' ''go'' [[]]]"
proof -
  have p: "list_all plain_statement
      [Construct ''T'' ''m'' ''C'' [''1'', ''2''], Invoke ''m'' ''go'' [[]]]"
    by code_simp
  from p intermediate_text_round_trip [OF p] show ?thesis by (rule conjI)
qed


section \<open>Rendering and the interpreter\<close>

subsection \<open>Runs of spaces\<close>









subsection \<open>Runs of spaces in what \<open>repr\<close> writes\<close>
















subsection \<open>A list display that is cut off\<close>

declare items_cut.simps [simp del]














subsection \<open>The lines of statements with token names\<close>










text \<open>
  What the two runs of the witness give: the declaration keeps one of the two spaces of
  its argument, and the call with two arguments ends in the exception of \<open>eval\<close>.
\<close>

lemma rendering_examples:
  "convert_text (interp_stdin ''a'') cpp_rule
     (intermediate_text [Construct ''T'' ''m'' ''C'' [''a  b'', ''2''], Invoke ''m'' ''go'' [''x'']])
    = Inr (rule_start cpp_rule @ [LF, TAB] @ ''T* m = new C(a b, 2);''
        @ [LF, TAB] @ ''m->go(x);'' @ rule_end cpp_rule)
   \<and> convert_text (interp_stdin ''a'') cpp_rule
       (intermediate_text [Invoke ''m'' ''go'' [''x'', ''y'']])
     = Inl EvalError"
  by code_simp


end
